theory Spec2Isabelle
  imports Complex_Main
begin

section \<open>Discrete-choice regression notebook (Lecture21\_discrete)\<close>

text \<open>
  The notebook works on pandas Series of floats with numpy's elementwise operations.
  A Series is modelled as a list and an elementwise numpy expression as a function
  mapped over it. The floats are IEEE 754 doubles. Each expression of the notebook is
  given twice: by its exact value, a function on \<open>real\<close> (\<open>logistic_cdf\<close>,
  \<open>pred_logit_at\<close>), for the identities that the code meets up to rounding; and as the
  computation on doubles (\<open>pred_logit\<close>, \<open>Y_logistic\<close>, \<open>y_margeff\<close>), with rounding to
  nearest, overflow to infinity, underflow to zero and nan, for what depends on them.
  What statsmodels and scipy compute is modelled from the spec where it is needed.
\<close>

subsection \<open>Fitted results\<close>

text \<open>
  What the notebook reads from a statsmodels results object (\<open>res_ols\<close>, \<open>res_probit\<close>,
  \<open>res_logit\<close>) of the formula \<open>'favwin ~ spread'\<close>: \<open>params.Intercept\<close>,
  \<open>params.spread\<close> and \<open>fittedvalues\<close>, the linear index of every observation. They
  are finite doubles, each given by the real number it denotes.
\<close>

record coefficients =
  Intercept :: real
  spread :: real

record results =
  params :: coefficients
  fittedvalues :: "real list"

subsection \<open>The exact values of the logistic expressions\<close>

text \<open>
  \<^verbatim>\<open>Y = 1/(1+np.exp(-X))\<close> and
  \<^verbatim>\<open>pred_logit = np.exp(res_logit.fittedvalues) /( 1+np.exp(res_logit.fittedvalues) )\<close>,
  each applied to one element and read in exact arithmetic.
\<close>

definition logistic_cdf :: "real \<Rightarrow> real" where
  "logistic_cdf x = 1 / (1 + exp (- x))"

definition pred_logit_at :: "real \<Rightarrow> real" where
  "pred_logit_at z = exp z / (1 + exp z)"

subsection \<open>The normal distribution functions of scipy\<close>

text \<open>
  Modelled from the spec: \<open>scipy.stats.norm\<close> is a library the notebook imports, so its
  \<open>cdf\<close> and \<open>pdf\<close> are not in the repository. The spec gives the standard normal link as
  \<open>CDF(z) = (1/2)(1+erf(z/\<surd>2))\<close> and \<open>PDF(z) = (1/\<surd>(2\<pi>)) exp(-z\<^sup>2/2)\<close>; the error
  function is its Maclaurin series. The notebook calls both as \<open>norm.cdf(x, 0, 1)\<close> and
  \<open>norm.pdf(x, 0, 1)\<close>, the second and third arguments being the mean and the standard
  deviation, so the models take them too and standardise \<open>x\<close>.
\<close>

definition erf :: "real \<Rightarrow> real" where
  "erf x = 2 / sqrt pi * (\<Sum>n. (- 1) ^ n * x ^ (2 * n + 1) / (fact n * real (2 * n + 1)))"

definition norm_cdf :: "real \<Rightarrow> real \<Rightarrow> real \<Rightarrow> real" where
  "norm_cdf x loc scale = 1 / 2 * (1 + erf ((x - loc) / scale / sqrt 2))"

definition norm_pdf :: "real \<Rightarrow> real \<Rightarrow> real \<Rightarrow> real" where
  "norm_pdf x loc scale = 1 / sqrt (2 * pi) * exp (- ((x - loc) / scale)\<^sup>2 / 2) / scale"

text \<open>
  \<^verbatim>\<open>pred_probit = norm.cdf(res_probit.fittedvalues,0,1)\<close>
\<close>

definition pred_probit :: "results \<Rightarrow> real list" where
  "pred_probit res_probit = map (\<lambda>z. norm_cdf z 0 1) (fittedvalues res_probit)"

subsection \<open>IEEE 754 doubles\<close>

text \<open>
  A double is a finite value, given by the real number it denotes, an infinity or nan.
  The two zeros are one value: no expression of the notebook divides by zero, and a
  zero of either sign has sign 0. \<open>max_double\<close> is the largest finite double,
  \<open>(2\<^sup>5\<^sup>3 - 1) \<cdot> 2\<^sup>9\<^sup>7\<^sup>1\<close>.
\<close>

datatype double = Finite real | PInf | NInf | NaN

definition max_double :: real where
  "max_double = (2 ^ 53 - 1) * 2 ^ 971"

definition pow2 :: "int \<Rightarrow> real" where
  "pow2 k = 2 powr real_of_int k"

text \<open>
  Rounding to nearest, ties to even. A real \<open>x\<close> is scaled by the unit in the last
  place of its binade, \<open>2\<^sup>e\<^sup>-\<^sup>5\<^sup>2\<close> with \<open>e = \<lfloor>log\<^sub>2 |x|\<rfloor>\<close> and never below the subnormal
  unit \<open>2\<^sup>-\<^sup>1\<^sup>0\<^sup>7\<^sup>4\<close>, rounded to the nearest integer (\<open>rne\<close>) and scaled back. A result
  above \<open>max_double\<close> in size is the infinity of its sign; a real below half the
  subnormal unit rounds to zero.
\<close>

definition rne :: "real \<Rightarrow> int" where
  "rne y =
     (let f = \<lfloor>y\<rfloor>; d = y - real_of_int f
      in if d < 1 / 2 then f else if 1 / 2 < d then f + 1 else if even f then f else f + 1)"

definition ulp_exp :: "real \<Rightarrow> int" where
  "ulp_exp x = max (\<lfloor>log 2 \<bar>x\<bar>\<rfloor> - 52) (- 1074)"

definition round_real :: "real \<Rightarrow> real" where
  "round_real x =
     (if x = 0 then 0 else real_of_int (rne (x / pow2 (ulp_exp x))) * pow2 (ulp_exp x))"

definition round_double :: "real \<Rightarrow> double" where
  "round_double x =
     (let r = round_real x
      in if max_double < r then PInf else if r < - max_double then NInf else Finite r)"

text \<open>The reals of the form \<open>m \<cdot> 2\<^sup>j\<close> with a 53-bit \<open>m\<close>: the values rounding returns.\<close>

definition representable :: "real \<Rightarrow> bool" where
  "representable r \<longleftrightarrow> (\<exists>m j. r = real_of_int m * pow2 j \<and> \<bar>m\<bar> \<le> 2 ^ 53 \<and> - 1074 \<le> j)"

text \<open>
  The operations the notebook's expressions use: each is the exact result rounded,
  with the IEEE rules for infinities and nan. \<open>np.exp\<close> is taken as correctly rounded
  (numpy's is within an ulp of it); it overflows to infinity and underflows to zero.
\<close>

fun fneg :: "double \<Rightarrow> double" where
  "fneg (Finite x) = Finite (- x)"
| "fneg PInf = NInf"
| "fneg NInf = PInf"
| "fneg NaN = NaN"

fun fadd :: "double \<Rightarrow> double \<Rightarrow> double" where
  "fadd (Finite x) (Finite y) = round_double (x + y)"
| "fadd (Finite x) PInf = PInf"
| "fadd (Finite x) NInf = NInf"
| "fadd PInf (Finite y) = PInf"
| "fadd PInf PInf = PInf"
| "fadd PInf NInf = NaN"
| "fadd NInf (Finite y) = NInf"
| "fadd NInf NInf = NInf"
| "fadd NInf PInf = NaN"
| "fadd NaN b = NaN"
| "fadd a NaN = NaN"

fun fmul :: "double \<Rightarrow> double \<Rightarrow> double" where
  "fmul (Finite x) (Finite y) = round_double (x * y)"
| "fmul (Finite x) PInf = (if x = 0 then NaN else if 0 < x then PInf else NInf)"
| "fmul (Finite x) NInf = (if x = 0 then NaN else if 0 < x then NInf else PInf)"
| "fmul PInf (Finite y) = (if y = 0 then NaN else if 0 < y then PInf else NInf)"
| "fmul NInf (Finite y) = (if y = 0 then NaN else if 0 < y then NInf else PInf)"
| "fmul PInf PInf = PInf"
| "fmul PInf NInf = NInf"
| "fmul NInf PInf = NInf"
| "fmul NInf NInf = PInf"
| "fmul NaN b = NaN"
| "fmul a NaN = NaN"

fun fdiv :: "double \<Rightarrow> double \<Rightarrow> double" where
  "fdiv (Finite x) (Finite y) =
     (if y = 0 then (if x = 0 then NaN else if 0 < x then PInf else NInf)
      else round_double (x / y))"
| "fdiv (Finite x) PInf = Finite 0"
| "fdiv (Finite x) NInf = Finite 0"
| "fdiv PInf (Finite y) = (if 0 \<le> y then PInf else NInf)"
| "fdiv NInf (Finite y) = (if 0 \<le> y then NInf else PInf)"
| "fdiv PInf PInf = NaN"
| "fdiv PInf NInf = NaN"
| "fdiv NInf PInf = NaN"
| "fdiv NInf NInf = NaN"
| "fdiv NaN b = NaN"
| "fdiv a NaN = NaN"

fun np_exp :: "double \<Rightarrow> double" where
  "np_exp (Finite x) = round_double (exp x)"
| "np_exp PInf = PInf"
| "np_exp NInf = Finite 0"
| "np_exp NaN = NaN"

declare np_exp.simps(1) [simp del]
declare fadd.simps(1) [simp del]
declare fmul.simps(1) [simp del]
declare fdiv.simps(1) [simp del]

text \<open>The sign of a double: -1, 0 or 1, and nan for nan.\<close>

fun double_sign :: "double \<Rightarrow> double" where
  "double_sign (Finite x) = Finite (sgn x)"
| "double_sign PInf = Finite 1"
| "double_sign NInf = Finite (- 1)"
| "double_sign NaN = NaN"

subsection \<open>The notebook's expressions on doubles\<close>

text \<open>
  \<^verbatim>\<open>pred_logit = np.exp(res_logit.fittedvalues) /( 1+np.exp(res_logit.fittedvalues) )\<close>
\<close>

definition pred_logit_double :: "real \<Rightarrow> double" where
  "pred_logit_double z = fdiv (np_exp (Finite z)) (fadd (Finite 1) (np_exp (Finite z)))"




text \<open>
  Modelled from the spec: \<open>norm.pdf\<close> on doubles. scipy's code is not in the
  repository; the spec's density \<open>(1/\<surd>(2\<pi>)) exp(-z\<^sup>2/2)\<close> is evaluated in the order scipy
  does, \<^verbatim>\<open>np.exp(-x**2/2.0) / np.sqrt(2*np.pi)\<close> on \<^verbatim>\<open>(x - loc)/scale\<close>, the result
  divided by \<open>scale\<close>. \<open>norm_pdf_C\<close> is the double nearest \<open>\<surd>(2\<pi>)\<close>.
\<close>

definition norm_pdf_C :: double where
  "norm_pdf_C = round_double (sqrt (2 * pi))"

definition norm_pdf_double :: "real \<Rightarrow> real \<Rightarrow> real \<Rightarrow> double" where
  "norm_pdf_double x loc scale =
     (let y = fdiv (fadd (Finite x) (fneg (Finite loc))) (Finite scale)
      in fdiv (fdiv (np_exp (fdiv (fneg (fmul y y)) (Finite 2))) norm_pdf_C) (Finite scale))"

text \<open>
  \<^verbatim>\<open>y = norm.pdf(res_probit.fittedvalues,0,1)*res_probit.params.spread\<close>
  The marginal effect of \<open>spread\<close> at every observation.
\<close>

definition y_margeff :: "results \<Rightarrow> double list" where
  "y_margeff res_probit =
     map (\<lambda>z. fmul (norm_pdf_double z 0 1) (Finite (spread (params res_probit))))
       (fittedvalues res_probit)"

subsection \<open>The linear probability line\<close>

text \<open>
  \<^verbatim>\<open>
  p = res_ols.params
  x = range(0,35)
  y = [p.Intercept + p.spread*i for i in x]
  \<close>
  The points of the line, in exact arithmetic.
\<close>

definition linear_prob :: "coefficients \<Rightarrow> real list" where
  "linear_prob p = map (\<lambda>i. Intercept p + spread p * real i) [0..<35]"

text \<open>
  \<^verbatim>\<open>avg_spread = np.mean(vegas['spread'])\<close>: the arithmetic mean of a Series.
\<close>

definition mean :: "real list \<Rightarrow> real" where
  "mean xs = sum_list xs / real (length xs)"

subsection \<open>Vectors, matrices and linear systems\<close>

text \<open>
  The linear algebra the fits need. A vector is a list of reals, a matrix the list of
  its rows. Where numpy keeps the number of columns in the array's shape, the
  operations below take it as \<open>k\<close>.
\<close>

type_synonym vec = "real list"
type_synonym matrix = "real list list"

definition dot :: "vec \<Rightarrow> vec \<Rightarrow> real" where
  "dot u v = sum_list (map2 (*) u v)"

definition mat_vec :: "matrix \<Rightarrow> vec \<Rightarrow> vec" where
  "mat_vec A v = map (\<lambda>r. dot r v) A"

definition column :: "matrix \<Rightarrow> nat \<Rightarrow> vec" where
  "column A j = map (\<lambda>r. r ! j) A"

definition transpose_mat :: "nat \<Rightarrow> matrix \<Rightarrow> matrix" where
  "transpose_mat k A = map (column A) [0..<k]"

definition mat_mul :: "nat \<Rightarrow> matrix \<Rightarrow> matrix \<Rightarrow> matrix" where
  "mat_mul k A B = map (\<lambda>r. map (\<lambda>j. dot r (column B j)) [0..<k]) A"

definition unit_vec :: "nat \<Rightarrow> nat \<Rightarrow> vec" where
  "unit_vec k i = map (\<lambda>j. if i = j then 1 else 0) [0..<k]"

definition ident :: "nat \<Rightarrow> matrix" where
  "ident k = map (unit_vec k) [0..<k]"

definition is_matrix :: "nat \<Rightarrow> nat \<Rightarrow> matrix \<Rightarrow> bool" where
  "is_matrix n k A \<longleftrightarrow> length A = n \<and> list_all (\<lambda>r. length r = k) A"

definition invertible :: "nat \<Rightarrow> matrix \<Rightarrow> bool" where
  "invertible k A \<longleftrightarrow>
     (\<exists>B. is_matrix k k B \<and> mat_mul k B A = ident k \<and> mat_mul k A B = ident k)"

text \<open>
  Modelled from the spec: the spec (section 4.5) asks for the inverse of \<open>X\<^sup>tX\<close> and
  says nothing of how it is computed; the library routine the notebook reaches
  through statsmodels is not in the repository. Here it is Gaussian elimination on a
  system of equations, each a row of coefficients with its right-hand side: pick the
  first equation whose leading coefficient is not zero, eliminate the leading unknown
  from the others, solve the smaller system and substitute back. No pivot means the
  system is singular.
\<close>

type_synonym equation = "real list \<times> real"

fun find_pivot :: "equation list \<Rightarrow> (equation \<times> equation list) option" where
  "find_pivot [] = None"
| "find_pivot (e # es) =
     (if hd (fst e) \<noteq> 0 then Some (e, es)
      else (case find_pivot es of None \<Rightarrow> None | Some (p, rest) \<Rightarrow> Some (p, e # rest)))"

definition eliminate :: "equation \<Rightarrow> equation \<Rightarrow> equation" where
  "eliminate p e =
     (let f = hd (fst e) / hd (fst p)
      in (map2 (\<lambda>a b. a - f * b) (tl (fst e)) (tl (fst p)), snd e - f * snd p))"

fun solve :: "nat \<Rightarrow> equation list \<Rightarrow> vec option" where
  "solve 0 eqs = Some []"
| "solve (Suc n) eqs =
     (case find_pivot eqs of
        None \<Rightarrow> None
      | Some (p, rest) \<Rightarrow>
          (case solve n (map (eliminate p) rest) of
             None \<Rightarrow> None
           | Some xs \<Rightarrow> Some ((snd p - dot (tl (fst p)) xs) / hd (fst p) # xs)))"

text \<open>The inverse, column by column: column \<open>j\<close> solves \<open>A c = e\<^sub>j\<close>.\<close>

definition mat_inverse :: "nat \<Rightarrow> matrix \<Rightarrow> matrix option" where
  "mat_inverse k A =
     (case those (map (\<lambda>j. solve k (zip A (unit_vec k j))) [0..<k]) of
        None \<Rightarrow> None
      | Some cols \<Rightarrow> Some (transpose_mat k cols))"

subsection \<open>The linear probability baseline (OLS)\<close>

datatype error = DimensionError | MissingValueError | SingularMatrixError | SingularHessianError

definition XtX :: "nat \<Rightarrow> matrix \<Rightarrow> matrix" where
  "XtX k X = mat_mul k (transpose_mat k X) X"

definition Xty :: "nat \<Rightarrow> matrix \<Rightarrow> vec \<Rightarrow> vec" where
  "Xty k X y = mat_vec (transpose_mat k X) y"

text \<open>
  Modelled from the spec: the notebook fits with statsmodels
  (\<^verbatim>\<open>smf.ols('favwin ~ spread', data=vegas).fit()\<close>), whose code is not in the repository.
  The spec (section 4.5) gives the fit as closed-form least squares,
  \<open>\<beta> = (X\<^sup>tX)\<^sup>-\<^sup>1X\<^sup>ty\<close>, failing with \<open>SingularMatrixError\<close> when \<open>X\<^sup>tX\<close> is not invertible.
  \<open>k\<close> is the number of columns of the design matrix \<open>X\<close>.
\<close>

definition ols_fit :: "nat \<Rightarrow> matrix \<Rightarrow> vec \<Rightarrow> error + vec" where
  "ols_fit k X y =
     (case mat_inverse k (XtX k X) of
        None \<Rightarrow> Inl SingularMatrixError
      | Some XtX_inv \<Rightarrow> Inr (mat_vec XtX_inv (Xty k X y)))"

text \<open>
  Modelled from the spec: what the formula call does inside statsmodels, as the
  notebook uses it.
  \<^verbatim>\<open>
  # statsmodels adds a constant for us...
  res_ols = smf.ols('favwin ~ spread', data=vegas).fit()
  \<close>
  The data frame \<open>vegas\<close> is the list of its rows, each the pair of \<open>favwin\<close> and
  \<open>spread\<close>. The design matrix (spec, section 4.1) has the column of ones first,
  then \<open>spread\<close>; the result holds the two coefficients under the names the notebook
  reads, \<open>Intercept\<close> and \<open>spread\<close>, and the fitted values, which for OLS are the linear
  predictions \<open>X\<beta>\<close>.
\<close>

definition design_matrix :: "(real \<times> real) list \<Rightarrow> matrix" where
  "design_matrix vegas = map (\<lambda>row. [1, snd row]) vegas"

definition smf_ols :: "(real \<times> real) list \<Rightarrow> error + results" where
  "smf_ols vegas =
     (let X = design_matrix vegas in
      case ols_fit 2 X (map fst vegas) of
        Inl e \<Rightarrow> Inl e
      | Inr b \<Rightarrow> Inr \<lparr>params = \<lparr>Intercept = b ! 0, spread = b ! 1\<rparr>, fittedvalues = mat_vec X b\<rparr>)"

text \<open>
  The scenario of the spec's section 8: \<open>y = [1,0,1,1,0]\<close> on the regressor values
  \<open>[2,-1,3,1,-2]\<close>.
\<close>

definition toy_vegas :: "(real \<times> real) list" where
  "toy_vegas = [(1, 2), (0, - 1), (1, 3), (1, 1), (0, - 2)]"

subsection \<open>Marginal effects\<close>

datatype link = Normal | Logistic

datatype margeff_mode = Mean | Average

text \<open>The two links of the spec's section 4.2, the normal one as the notebook calls scipy.\<close>

fun link_cdf :: "link \<Rightarrow> real \<Rightarrow> real" where
  "link_cdf Normal z = norm_cdf z 0 1"
| "link_cdf Logistic z = logistic_cdf z"

fun link_pdf :: "link \<Rightarrow> real \<Rightarrow> real" where
  "link_pdf Normal z = norm_pdf z 0 1"
| "link_pdf Logistic z = logistic_cdf z * (1 - logistic_cdf z)"

definition mean_row :: "nat \<Rightarrow> matrix \<Rightarrow> vec" where
  "mean_row k X = map (\<lambda>j. mean (column X j)) [0..<k]"

text \<open>
  Modelled from the spec: the notebook calls \<^verbatim>\<open>res_probit.get_margeff('mean')\<close> and
  \<^verbatim>\<open>res_logit.get_margeff('mean')\<close> of statsmodels, not in the repository. The spec
  (section 4.4): for regressor \<open>j\<close> the effect is \<open>f(x\<beta>) \<cdot> \<beta>\<^sub>j\<close> with \<open>f\<close> the link PDF,
  the index taken at the column-wise mean of the design matrix (\<open>mean\<close>) or the effect
  taken at every observation and averaged (\<open>average\<close>); the intercept, the first
  coefficient, has no entry in the output.
\<close>

fun get_margeff :: "link \<Rightarrow> margeff_mode \<Rightarrow> matrix \<Rightarrow> vec \<Rightarrow> vec" where
  "get_margeff l Mean X \<beta> =
     map (\<lambda>b. link_pdf l (dot (mean_row (length \<beta>) X) \<beta>) * b) (tl \<beta>)"
| "get_margeff l Average X \<beta> =
     map (\<lambda>b. mean (map (\<lambda>x. link_pdf l (dot x \<beta>) * b) X)) (tl \<beta>)"

section \<open>Properties\<close>

subsection \<open>The logistic function\<close>

lemma one_plus_exp_pos: "0 < 1 + exp (z::real)"
  by (simp add: add_pos_pos)

lemma pred_logit_at_eq_logistic_cdf: "pred_logit_at z = logistic_cdf z"
proof -
  have "exp z * (1 + exp (- z)) = 1 + exp z"
    by (simp add: distrib_left exp_minus)
  moreover have "1 + exp (- z) \<noteq> 0" "1 + exp z \<noteq> 0"
    using one_plus_exp_pos [of z] one_plus_exp_pos [of "- z"] by simp_all
  ultimately show ?thesis
    unfolding pred_logit_at_def logistic_cdf_def by (simp add: field_simps)
qed

lemma logistic_cdf_sum: "logistic_cdf z + logistic_cdf (- z) = 1"
proof -
  have "logistic_cdf (- z) = exp (- z) / (1 + exp (- z))"
    using pred_logit_at_eq_logistic_cdf [of "- z"] by (simp add: pred_logit_at_def)
  moreover have "logistic_cdf z = 1 / (1 + exp (- z))"
    by (simp add: logistic_cdf_def)
  ultimately have "logistic_cdf z + logistic_cdf (- z) = (1 + exp (- z)) / (1 + exp (- z))"
    by (simp only: add_divide_distrib)
  also have "\<dots> = 1"
    using one_plus_exp_pos [of "- z"] by simp
  finally show ?thesis .
qed

lemma pred_logit_at_pos: "0 < pred_logit_at z"
  unfolding pred_logit_at_def using one_plus_exp_pos [of z] by simp

lemma pred_logit_at_less_one: "pred_logit_at z < 1"
  unfolding pred_logit_at_def using one_plus_exp_pos [of z] by simp

lemma pred_logit_at_less_exp: "pred_logit_at z < exp z"
proof -
  have "exp z / (1 + exp z) < exp z / 1"
    by (intro divide_strict_left_mono) (simp_all add: one_plus_exp_pos)
  then show ?thesis by (simp add: pred_logit_at_def)
qed

lemma pred_logit_at_complement: "1 - pred_logit_at z = pred_logit_at (- z)"
  using logistic_cdf_sum [of z] by (simp add: pred_logit_at_eq_logistic_cdf)

lemma pred_logit_at_low_tail: "0 < \<epsilon> \<Longrightarrow> pred_logit_at (ln (\<epsilon> / 2)) < \<epsilon>"
  using pred_logit_at_less_exp [of "ln (\<epsilon> / 2)"] by simp

lemma pred_logit_at_high_tail: "0 < \<epsilon> \<Longrightarrow> 1 - \<epsilon> < pred_logit_at (- ln (\<epsilon> / 2))"
  using pred_logit_at_low_tail [of \<epsilon>] pred_logit_at_complement [of "- ln (\<epsilon> / 2)"] by simp

lemma exp_40_lower: "(10::real) ^ 12 < exp 40"
proof -
  have "(2::real) < exp 1"
    using exp_lower_Taylor_quadratic [of "1::real"] by simp
  then have "(2::real) ^ 40 < exp 1 ^ 40"
    by (intro power_strict_mono) simp_all
  also have "\<dots> = exp 40"
    by (simp add: exp_of_nat_mult [symmetric])
  finally show ?thesis by simp
qed

lemma pred_logit_at_40: "1 - 1 / 10 ^ 12 < pred_logit_at 40"
proof -
  have "1 - pred_logit_at 40 = 1 / (1 + exp (40::real))"
    unfolding pred_logit_at_def using one_plus_exp_pos [of 40] by (simp add: field_simps)
  moreover have "1 / (1 + exp (40::real)) < 1 / 10 ^ 12"
    using exp_40_lower by (intro divide_strict_left_mono) simp_all
  ultimately show ?thesis by linarith
qed

lemma logistic_pdf_pos: "0 < logistic_cdf z * (1 - logistic_cdf z)"
  using pred_logit_at_pos [of z] pred_logit_at_less_one [of z]
  by (simp add: pred_logit_at_eq_logistic_cdf)

subsection \<open>The normal functions\<close>

lemma erf_0: "erf 0 = 0"
  by (simp add: erf_def)

lemma norm_pdf_pos: "0 < scale \<Longrightarrow> 0 < norm_pdf x loc scale"
  by (simp add: norm_pdf_def)

lemma link_pdf_pos: "0 < link_pdf l z"
  by (cases l) (simp_all add: norm_pdf_pos logistic_pdf_pos)

subsection \<open>Rounding to nearest\<close>

lemma pow2_pos [simp]: "0 < pow2 k"
  by (simp add: pow2_def)

lemma pow2_nonzero [simp]: "pow2 k \<noteq> 0"
  by (simp add: pow2_def)

lemma pow2_nonneg [simp]: "0 \<le> pow2 k"
  by (simp add: pow2_def)

lemma abs_pow2 [simp]: "\<bar>pow2 k\<bar> = pow2 k"
  by (simp add: pow2_def)

lemma pow2_add: "pow2 (a + b) = pow2 a * pow2 b"
  by (simp add: pow2_def powr_add)

lemma pow2_diff: "pow2 (a - b) = pow2 a / pow2 b"
  by (simp add: pow2_def powr_diff)

lemma pow2_0 [simp]: "pow2 0 = 1"
  by (simp add: pow2_def)

lemma pow2_nat: "pow2 (int n) = 2 ^ n"
  by (simp add: pow2_def powr_realpow)

lemma pow2_mono: "a \<le> b \<Longrightarrow> pow2 a \<le> pow2 b"
  by (simp add: pow2_def)

lemma pow2_strict_mono: "a < b \<Longrightarrow> pow2 a < pow2 b"
  by (simp add: pow2_def)

lemma pow2_is_int: "0 \<le> k \<Longrightarrow> pow2 k = real_of_int (2 ^ nat k)"
  using pow2_nat [of "nat k"] by simp

lemma rne_lower: "\<lfloor>y\<rfloor> \<le> rne y"
  by (simp add: rne_def Let_def)

lemma rne_upper: "rne y \<le> \<lfloor>y\<rfloor> + 1"
  by (simp add: rne_def Let_def)

lemma rne_of_int [simp]: "rne (real_of_int n) = n"
  by (simp add: rne_def Let_def)

lemma rne_ge: "real_of_int n \<le> y \<Longrightarrow> n \<le> rne y"
proof -
  assume "real_of_int n \<le> y"
  then have "n \<le> \<lfloor>y\<rfloor>" by (simp add: le_floor_iff)
  with rne_lower [of y] show ?thesis by simp
qed

lemma rne_le: "y \<le> real_of_int n \<Longrightarrow> rne y \<le> n"
proof (cases "y = real_of_int n")
  case True
  then show ?thesis by simp
next
  case False
  assume "y \<le> real_of_int n"
  with False have "y < real_of_int n" by simp
  then have "\<lfloor>y\<rfloor> < n" by (simp add: floor_less_iff)
  with rne_upper [of y] show ?thesis by simp
qed

lemma rne_near:
  assumes "\<bar>y - real_of_int n\<bar> < 1 / 2"
  shows "rne y = n"
proof (cases "real_of_int n \<le> y")
  case True
  with assms have "\<lfloor>y\<rfloor> = n" by (intro floor_unique) auto
  with assms True show ?thesis by (auto simp: rne_def Let_def)
next
  case False
  with assms have "\<lfloor>y\<rfloor> = n - 1" by (intro floor_unique) auto
  with assms False show ?thesis by (auto simp: rne_def Let_def)
qed

lemma log2_bounds:
  assumes "0 < x"
  shows "pow2 \<lfloor>log 2 x\<rfloor> \<le> x" and "x < pow2 (\<lfloor>log 2 x\<rfloor> + 1)"
  using floor_log_eq_powr_iff [of x 2 "\<lfloor>log 2 x\<rfloor>"] assms
  by (simp_all add: pow2_def)

lemma floor_log2_eq: "pow2 k \<le> x \<Longrightarrow> x < pow2 (k + 1) \<Longrightarrow> \<lfloor>log 2 x\<rfloor> = k"
proof -
  assume a: "pow2 k \<le> x" "x < pow2 (k + 1)"
  then have "0 < x" using pow2_pos [of k] by linarith
  with a show ?thesis
    using floor_log_eq_powr_iff [of x 2 k] by (simp add: pow2_def)
qed

lemma ulp_exp_ge: "- 1074 \<le> ulp_exp x"
  by (simp add: ulp_exp_def)

lemma ulp_exp_abs: "ulp_exp \<bar>x\<bar> = ulp_exp x"
  by (simp add: ulp_exp_def)

text \<open>The scaled magnitude is below 2^53, and at least 2^52 above the subnormal range.\<close>

lemma scaled_less:
  assumes "0 < x"
  shows "x / pow2 (ulp_exp x) < 2 ^ 53"
proof -
  have "x < pow2 (\<lfloor>log 2 x\<rfloor> + 1)"
    by (rule log2_bounds [OF assms])
  also have "\<dots> \<le> pow2 (ulp_exp x + 53)"
    using assms by (intro pow2_mono) (simp add: ulp_exp_def)
  also have "\<dots> = pow2 (ulp_exp x) * 2 ^ 53"
    using pow2_nat [of 53] by (simp add: pow2_add)
  finally show ?thesis
    by (simp add: pos_divide_less_eq mult.commute)
qed

lemma scaled_ge:
  assumes "0 < x" and "- 1074 < ulp_exp x"
  shows "2 ^ 52 \<le> x / pow2 (ulp_exp x)"
proof -
  from assms have k: "ulp_exp x = \<lfloor>log 2 x\<rfloor> - 52"
    by (simp add: ulp_exp_def max_def split: if_splits)
  have "pow2 (ulp_exp x) * 2 ^ 52 = pow2 (ulp_exp x + 52)"
    using pow2_nat [of 52] by (simp add: pow2_add)
  also have "\<dots> \<le> x"
    using log2_bounds(1) [OF assms(1)] by (simp add: k)
  finally show ?thesis
    by (simp add: pos_le_divide_eq mult.commute)
qed

lemma ulp_exp_mono:
  assumes "0 < r" and "r \<le> x"
  shows "ulp_exp r \<le> ulp_exp x"
proof -
  from assms have "log 2 r \<le> log 2 x" by simp
  then have "\<lfloor>log 2 r\<rfloor> \<le> \<lfloor>log 2 x\<rfloor>" by (rule floor_mono)
  with assms show ?thesis by (simp add: ulp_exp_def)
qed

lemma below_next_binade:
  assumes "0 < r"
  shows "r < pow2 (ulp_exp r + 53)"
proof -
  have "r < pow2 (\<lfloor>log 2 r\<rfloor> + 1)"
    by (rule log2_bounds [OF assms])
  also have "\<dots> \<le> pow2 (ulp_exp r + 53)"
    using assms by (intro pow2_mono) (simp add: ulp_exp_def)
  finally show ?thesis .
qed

lemma round_real_pos_eq:
  "x \<noteq> 0 \<Longrightarrow> round_real x = real_of_int (rne (x / pow2 (ulp_exp x))) * pow2 (ulp_exp x)"
  by (simp add: round_real_def)

lemma round_real_0 [simp]: "round_real 0 = 0"
  by (simp add: round_real_def)

lemma round_real_nonneg: "0 \<le> x \<Longrightarrow> 0 \<le> round_real x"
proof (cases "x = 0")
  case True
  then show ?thesis by simp
next
  case False
  assume "0 \<le> x"
  then have "real_of_int 0 \<le> x / pow2 (ulp_exp x)" by simp
  then have "0 \<le> rne (x / pow2 (ulp_exp x))" by (rule rne_ge)
  with False show ?thesis by (simp add: round_real_pos_eq)
qed

lemma round_real_nonpos: "x \<le> 0 \<Longrightarrow> round_real x \<le> 0"
proof (cases "x = 0")
  case True
  then show ?thesis by simp
next
  case False
  assume "x \<le> 0"
  then have "x / pow2 (ulp_exp x) \<le> real_of_int 0"
    by (simp add: divide_nonpos_pos)
  then have "rne (x / pow2 (ulp_exp x)) \<le> 0" by (rule rne_le)
  with False show ?thesis
    by (simp add: round_real_pos_eq mult_nonpos_nonneg)
qed

lemma representable_multiple:
  assumes rep: "representable r" and nz: "r \<noteq> 0"
  shows "\<exists>N. r = real_of_int N * pow2 (ulp_exp r)"
proof -
  from rep obtain m j where r: "r = real_of_int m * pow2 j" and m: "\<bar>m\<bar> \<le> 2 ^ 53" and j: "- 1074 \<le> j"
    by (auto simp: representable_def)
  show ?thesis
  proof (cases "ulp_exp r \<le> j")
    case True
    then have "pow2 j = pow2 (j - ulp_exp r) * pow2 (ulp_exp r)"
      by (simp add: pow2_add [symmetric])
    also have "pow2 (j - ulp_exp r) = real_of_int (2 ^ nat (j - ulp_exp r))"
      using True by (intro pow2_is_int) simp
    finally have "r = real_of_int (m * 2 ^ nat (j - ulp_exp r)) * pow2 (ulp_exp r)"
      by (simp add: r)
    then show ?thesis by blast
  next
    case False
    then have lt: "j < ulp_exp r" by simp
    with j have sub: "- 1074 < ulp_exp r" by simp
    have pos: "0 < \<bar>r\<bar>" using nz by simp
    have "2 ^ 52 \<le> \<bar>r\<bar> / pow2 (ulp_exp \<bar>r\<bar>)"
      using sub by (intro scaled_ge [OF pos]) (simp add: ulp_exp_abs)
    then have lower: "pow2 (ulp_exp r) * 2 ^ 52 \<le> \<bar>r\<bar>"
      by (simp add: ulp_exp_abs pos_le_divide_eq mult.commute)
    have "\<bar>r\<bar> = real_of_int \<bar>m\<bar> * pow2 j"
      by (simp add: r abs_mult)
    also have "\<dots> \<le> 2 ^ 53 * pow2 j"
      using m by (intro mult_right_mono) (simp_all add: of_int_le_iff [of "\<bar>m\<bar>" "2 ^ 53", simplified])
    also have "\<dots> = pow2 (j + 1) * 2 ^ 52"
      using pow2_nat [of 1] by (simp add: pow2_add)
    also have "\<dots> \<le> pow2 (ulp_exp r) * 2 ^ 52"
      using lt by (intro mult_right_mono pow2_mono) simp_all
    finally have "\<bar>r\<bar> = pow2 (ulp_exp r) * 2 ^ 52"
      using lower by simp
    then have "r = real_of_int (2 ^ 52) * pow2 (ulp_exp r) \<or> r = real_of_int (- (2 ^ 52)) * pow2 (ulp_exp r)"
      by (auto simp: abs_if split: if_splits)
    then show ?thesis by blast
  qed
qed

lemma round_real_exact:
  assumes "representable r"
  shows "round_real r = r"
proof (cases "r = 0")
  case True
  then show ?thesis by simp
next
  case False
  from representable_multiple [OF assms False] obtain N where
    N: "r = real_of_int N * pow2 (ulp_exp r)"
    by blast
  then have "r / pow2 (ulp_exp r) = real_of_int N * pow2 (ulp_exp r) / pow2 (ulp_exp r)"
    by (rule arg_cong [where f = "\<lambda>t. t / pow2 (ulp_exp r)"])
  then have "rne (r / pow2 (ulp_exp r)) = N"
    by simp
  then have "round_real r = real_of_int N * pow2 (ulp_exp r)"
    using False by (simp add: round_real_pos_eq)
  with N show ?thesis by simp
qed

lemma round_real_lower:
  assumes rep: "representable r" and x: "0 < x" and le: "r \<le> x"
  shows "r \<le> round_real x"
proof (cases "0 < r")
  case False
  with round_real_nonneg [of x] x show ?thesis by simp
next
  case True
  then have nz: "r \<noteq> 0" by simp
  from representable_multiple [OF rep nz] obtain N where
    N: "r = real_of_int N * pow2 (ulp_exp r)"
    by blast
  have xnz: "x \<noteq> 0" using x by simp
  have mono: "ulp_exp r \<le> ulp_exp x"
    by (rule ulp_exp_mono [OF True le])
  show ?thesis
  proof (cases "ulp_exp r = ulp_exp x")
    case True
    then have "real_of_int N \<le> x / pow2 (ulp_exp x)"
      using N le by (simp add: pos_le_divide_eq)
    then have "N \<le> rne (x / pow2 (ulp_exp x))" by (rule rne_ge)
    then have "real_of_int N * pow2 (ulp_exp x) \<le> real_of_int (rne (x / pow2 (ulp_exp x))) * pow2 (ulp_exp x)"
      by (intro mult_right_mono) simp_all
    then show ?thesis
      using N True xnz by (simp add: round_real_pos_eq)
  next
    case False
    with mono have lt: "ulp_exp r < ulp_exp x" by simp
    with ulp_exp_ge [of r] have sub: "- 1074 < ulp_exp x" by simp
    have "real_of_int (2 ^ 52) \<le> x / pow2 (ulp_exp x)"
      using scaled_ge [OF x sub] by simp
    then have "2 ^ 52 \<le> rne (x / pow2 (ulp_exp x))" by (rule rne_ge)
    then have "real_of_int (2 ^ 52) * pow2 (ulp_exp x) \<le> real_of_int (rne (x / pow2 (ulp_exp x))) * pow2 (ulp_exp x)"
      by (intro mult_right_mono) (simp_all only: of_int_le_iff pow2_pos less_imp_le)
    then have big: "pow2 (ulp_exp x + 52) \<le> round_real x"
      using xnz pow2_nat [of 52] by (simp add: round_real_pos_eq pow2_add mult.commute)
    have "r < pow2 (ulp_exp r + 53)"
      by (rule below_next_binade [OF True])
    also have "\<dots> \<le> pow2 (ulp_exp x + 52)"
      using lt by (intro pow2_mono) simp
    finally show ?thesis using big by simp
  qed
qed

lemma round_real_upper:
  assumes rep: "representable r" and x: "0 < x" and le: "x \<le> r"
  shows "round_real x \<le> r"
proof -
  from x le have rpos: "0 < r" by simp
  then have nz: "r \<noteq> 0" by simp
  from representable_multiple [OF rep nz] obtain N where
    N: "r = real_of_int N * pow2 (ulp_exp r)"
    by blast
  have xnz: "x \<noteq> 0" using x by simp
  have mono: "ulp_exp x \<le> ulp_exp r"
    by (rule ulp_exp_mono [OF x le])
  show ?thesis
  proof (cases "ulp_exp r = ulp_exp x")
    case True
    then have "x / pow2 (ulp_exp x) \<le> real_of_int N"
      using N le by (simp add: pos_divide_le_eq)
    then have "rne (x / pow2 (ulp_exp x)) \<le> N" by (rule rne_le)
    then have "real_of_int (rne (x / pow2 (ulp_exp x))) * pow2 (ulp_exp x) \<le> real_of_int N * pow2 (ulp_exp x)"
      by (intro mult_right_mono) simp_all
    then show ?thesis
      using N True xnz by (simp add: round_real_pos_eq)
  next
    case False
    with mono have lt: "ulp_exp x < ulp_exp r" by simp
    with ulp_exp_ge [of x] have sub: "- 1074 < ulp_exp r" by simp
    have "x / pow2 (ulp_exp x) \<le> real_of_int (2 ^ 53)"
      using scaled_less [OF x] by simp
    then have "rne (x / pow2 (ulp_exp x)) \<le> 2 ^ 53" by (rule rne_le)
    then have "real_of_int (rne (x / pow2 (ulp_exp x))) * pow2 (ulp_exp x) \<le> real_of_int (2 ^ 53) * pow2 (ulp_exp x)"
      by (intro mult_right_mono) (simp_all only: of_int_le_iff pow2_pos less_imp_le)
    then have "round_real x \<le> pow2 (ulp_exp x + 53)"
      using xnz pow2_nat [of 53] by (simp add: round_real_pos_eq pow2_add mult.commute)
    also have "\<dots> \<le> pow2 (ulp_exp r + 52)"
      using lt by (intro pow2_mono) simp
    also have "\<dots> = pow2 (ulp_exp r) * 2 ^ 52"
      using pow2_nat [of 52] by (simp add: pow2_add)
    also have "\<dots> \<le> r"
      using scaled_ge [OF rpos sub] by (simp add: pos_le_divide_eq mult.commute)
    finally show ?thesis .
  qed
qed

lemma round_real_representable: "representable (round_real x)"
proof (cases "x = 0")
  case True
  have "(0::real) = real_of_int 0 * pow2 0" by simp
  then have "representable 0"
    unfolding representable_def by (intro exI [of _ 0] exI [of _ "0::int"]) simp
  with True show ?thesis by simp
next
  case False
  then have pos: "0 < \<bar>x\<bar>" by simp
  have "\<bar>x / pow2 (ulp_exp x)\<bar> = \<bar>x\<bar> / pow2 (ulp_exp \<bar>x\<bar>)"
    by (simp add: ulp_exp_abs)
  also have "\<dots> < 2 ^ 53"
    by (rule scaled_less [OF pos])
  finally have b: "\<bar>x / pow2 (ulp_exp x)\<bar> < 2 ^ 53" .
  have c: "real_of_int (2 ^ 53) = 2 ^ 53" "real_of_int (- (2 ^ 53)) = - (2 ^ 53)"
    by simp_all
  from b have u: "x / pow2 (ulp_exp x) \<le> real_of_int (2 ^ 53)"
    and l: "real_of_int (- (2 ^ 53)) \<le> x / pow2 (ulp_exp x)"
    unfolding c by linarith+
  have "rne (x / pow2 (ulp_exp x)) \<le> 2 ^ 53"
    using u by (rule rne_le)
  moreover have "- (2 ^ 53) \<le> rne (x / pow2 (ulp_exp x))"
    using l by (rule rne_ge)
  ultimately have "\<bar>rne (x / pow2 (ulp_exp x))\<bar> \<le> 2 ^ 53"
    by simp
  then show ?thesis
    unfolding representable_def using False ulp_exp_ge [of x]
    by (intro exI [of _ "rne (x / pow2 (ulp_exp x))"] exI [of _ "ulp_exp x"])
       (simp add: round_real_pos_eq)
qed

lemma representable_of_int: "\<bar>n\<bar> \<le> 2 ^ 53 \<Longrightarrow> representable (real_of_int n)"
  unfolding representable_def by (intro exI [of _ n] exI [of _ "0::int"]) simp

lemma representable_1: "representable 1"
  using representable_of_int [of 1] by simp

lemma representable_half_int: "\<bar>n\<bar> \<le> 2 ^ 53 \<Longrightarrow> representable (real_of_int n / 2)"
proof -
  have "pow2 (- 1) = 1 / 2"
    by (simp add: pow2_def powr_minus inverse_eq_divide)
  then have "real_of_int n / 2 = real_of_int n * pow2 (- 1)" by simp
  moreover assume "\<bar>n\<bar> \<le> 2 ^ 53"
  ultimately show ?thesis
    unfolding representable_def by (intro exI [of _ n] exI [of _ "- 1 :: int"]) simp
qed

lemma representable_pow2: "- 1074 \<le> k \<Longrightarrow> representable (pow2 k)"
  unfolding representable_def by (intro exI [of _ 1] exI [of _ k]) simp


lemma round_double_exact:
  "representable r \<Longrightarrow> \<bar>r\<bar> \<le> max_double \<Longrightarrow> round_double r = Finite r"
  by (auto simp: round_double_def Let_def round_real_exact)

lemma round_double_int:
  "\<bar>n\<bar> \<le> 2 ^ 53 \<Longrightarrow> round_double (real_of_int n) = Finite (real_of_int n)"
proof (rule round_double_exact)
  assume n: "\<bar>n\<bar> \<le> 2 ^ 53"
  then show "representable (real_of_int n)" by (rule representable_of_int)
  have "\<bar>real_of_int n\<bar> \<le> 2 ^ 53"
    using n by (simp add: of_int_abs [symmetric] of_int_le_iff [of "\<bar>n\<bar>" "2 ^ 53", simplified] del: of_int_abs)
  also have "\<dots> \<le> max_double" by (simp add: max_double_def)
  finally show "\<bar>real_of_int n\<bar> \<le> max_double" .
qed


lemma round_real_underflow:
  assumes "0 \<le> x" and "x < pow2 (- 1075)"
  shows "round_real x = 0"
proof (cases "x = 0")
  case True
  then show ?thesis by simp
next
  case False
  with assms have pos: "0 < x" by simp
  have "\<lfloor>log 2 x\<rfloor> < - 1075"
  proof (rule ccontr)
    assume "\<not> \<lfloor>log 2 x\<rfloor> < - 1075"
    then have "pow2 (- 1075) \<le> pow2 \<lfloor>log 2 x\<rfloor>" by (intro pow2_mono) simp
    with log2_bounds(1) [OF pos] assms(2) show False by simp
  qed
  moreover have "\<bar>x\<bar> = x" using pos by simp
  ultimately have k: "ulp_exp x = - 1074"
    unfolding ulp_exp_def by (simp only:) arith?
  have "pow2 (- 1075) = pow2 (- 1074) / 2"
    using pow2_diff [of "- 1074" 1] pow2_nat [of 1] by simp
  with assms(2) have "x / pow2 (- 1074) < 1 / 2"
    by (simp add: pos_divide_less_eq)
  then have "\<bar>x / pow2 (- 1074) - real_of_int 0\<bar> < 1 / 2"
    using pos by simp
  then have "rne (x / pow2 (- 1074)) = 0" by (rule rne_near)
  then show ?thesis
    using False by (simp add: round_real_pos_eq k)
qed

lemma round_double_underflow:
  "0 \<le> x \<Longrightarrow> x < pow2 (- 1075) \<Longrightarrow> round_double x = Finite 0"
  by (simp add: round_double_def Let_def round_real_underflow max_double_def)

lemma round_real_absorbs_one:
  assumes rep: "representable e" and big: "2 ^ 54 \<le> e"
  shows "round_real (1 + e) = e"
proof -
  have pos: "0 < e" using big by (rule less_le_trans [rotated]) simp
  then have nz: "e \<noteq> 0" by simp
  let ?L = "\<lfloor>log 2 e\<rfloor>"
  have L: "54 \<le> ?L"
  proof (rule ccontr)
    assume "\<not> 54 \<le> ?L"
    then have "pow2 (?L + 1) \<le> pow2 54" by (intro pow2_mono) simp
    also have "\<dots> = 2 ^ 54" using pow2_nat [of 54] by simp
    finally show False using log2_bounds(2) [OF pos] big by simp
  qed
  moreover have abs_e: "\<bar>e\<bar> = e" using pos by simp
  ultimately have k: "ulp_exp e = ?L - 52"
    unfolding ulp_exp_def by (simp only:) arith?
  from representable_multiple [OF rep nz] obtain N where
    N: "e = real_of_int N * pow2 (?L - 52)"
    by (auto simp: k)
  have four: "4 \<le> pow2 (?L - 52)"
  proof -
    have "pow2 2 \<le> pow2 (?L - 52)" using L by (intro pow2_mono) simp
    then show ?thesis using pow2_nat [of 2] by simp
  qed
  have "real_of_int N * pow2 (?L - 52) < pow2 (?L - 52 + 53)"
    using below_next_binade [OF pos] N by (simp add: k)
  also have "\<dots> = pow2 (?L - 52) * pow2 53"
    by (rule pow2_add)
  also have "\<dots> = real_of_int (2 ^ 53) * pow2 (?L - 52)"
    using pow2_nat [of 53] by simp
  finally have "real_of_int N < real_of_int (2 ^ 53)"
    by (simp only: mult_less_cancel_right_pos pow2_pos)
  then have "N + 1 \<le> 2 ^ 53" by simp
  then have "real_of_int (N + 1) * pow2 (?L - 52) \<le> real_of_int (2 ^ 53) * pow2 (?L - 52)"
    by (intro mult_right_mono) (simp_all only: of_int_le_iff pow2_nonneg)
  also have "\<dots> = pow2 (?L + 1)"
  proof -
    have "?L + 1 = ?L - 52 + 53" by arith
    then have "pow2 (?L + 1) = pow2 (?L - 52 + 53)" by (rule arg_cong)
    also have "\<dots> = pow2 (?L - 52) * pow2 53" by (rule pow2_add)
    also have "pow2 53 = 2 ^ 53" using pow2_nat [of 53] by simp
    finally show ?thesis by simp
  qed
  finally have next_binade: "e + pow2 (?L - 52) \<le> pow2 (?L + 1)"
    using N by (simp add: algebra_simps)
  have "1 + e < pow2 (?L + 1)"
    using next_binade four by simp
  moreover have "pow2 ?L \<le> 1 + e"
    using log2_bounds(1) [OF pos] by simp
  ultimately have "\<lfloor>log 2 (1 + e)\<rfloor> = ?L"
    by (intro floor_log2_eq)
  moreover have "\<bar>1 + e\<bar> = 1 + e" using pos by simp
  ultimately have k': "ulp_exp (1 + e) = ?L - 52"
    unfolding ulp_exp_def using L by (simp only:) arith?
  have "(1 + e) / pow2 (?L - 52) = 1 / pow2 (?L - 52) + real_of_int N * pow2 (?L - 52) / pow2 (?L - 52)"
    using N by (metis add_divide_distrib)
  then have "(1 + e) / pow2 (?L - 52) - real_of_int N = 1 / pow2 (?L - 52)"
    by simp
  moreover have "1 / pow2 (?L - 52) \<le> 1 / 4"
    using four by (intro divide_left_mono) simp_all
  ultimately have "\<bar>(1 + e) / pow2 (?L - 52) - real_of_int N\<bar> < 1 / 2"
    by simp
  then have "rne ((1 + e) / pow2 (?L - 52)) = N" by (rule rne_near)
  moreover have "1 + e \<noteq> 0" using pos by simp
  ultimately have "round_real (1 + e) = real_of_int N * pow2 (?L - 52)"
    by (simp add: round_real_pos_eq k')
  with N show ?thesis by simp
qed

subsection \<open>Rounding into doubles\<close>

lemma max_double_pos: "0 < max_double"
  by (simp add: max_double_def)

lemma round_double_nonneg:
  assumes "0 \<le> x"
  shows "round_double x = PInf \<or> (\<exists>q. round_double x = Finite q \<and> 0 \<le> q \<and> q = round_real x)"
  using round_real_nonneg [OF assms] max_double_pos
  by (auto simp: round_double_def Let_def)

lemma round_double_nonpos:
  assumes "x \<le> 0"
  shows "round_double x = NInf \<or> (\<exists>q. round_double x = Finite q \<and> q \<le> 0)"
  using round_real_nonpos [OF assms] max_double_pos
  by (auto simp: round_double_def Let_def)

lemma round_double_unit:
  assumes "0 \<le> x" and "x \<le> 1"
  shows "\<exists>q. round_double x = Finite q \<and> 0 \<le> q \<and> q \<le> 1"
proof (cases "x = 0")
  case True
  then show ?thesis
    using max_double_pos by (simp add: round_double_def Let_def)
next
  case False
  with assms have pos: "0 < x" by simp
  have "round_real x \<le> 1"
    by (rule round_real_upper [OF representable_1 pos assms(2)])
  moreover have "0 \<le> round_real x"
    by (rule round_real_nonneg [OF assms(1)])
  moreover have "1 \<le> max_double"
    by (simp add: max_double_def)
  ultimately show ?thesis
    by (auto simp: round_double_def Let_def)
qed

lemma round_double_0 [simp]: "round_double 0 = Finite 0"
  using max_double_pos by (simp add: round_double_def Let_def)

lemma round_double_1 [simp]: "round_double 1 = Finite 1"
  using round_double_int [of 1] by simp

subsection \<open>Bounds on the exponential\<close>

lemma exp_7_10_lower: "2 \<le> exp (7 / 10 :: real)"
proof -
  have "(3809 / 3200 :: real) \<le> exp (7 / 40)"
    using exp_lower_Taylor_quadratic [of "7 / 40 :: real"] by (simp add: power2_eq_square)
  then have "(3809 / 3200 :: real) ^ 4 \<le> exp (7 / 40) ^ 4"
    by (intro power_mono) simp_all
  also have "\<dots> = exp (7 / 10)"
    using exp_of_nat_mult [of 4 "7 / 40 :: real"] by simp
  finally show ?thesis
    by (simp add: power4_eq_xxxx)
qed

lemma pow2_le_exp: "(2::real) ^ n \<le> exp (7 / 10 * real n)"
proof -
  have "(2::real) ^ n \<le> exp (7 / 10) ^ n"
    using exp_7_10_lower by (intro power_mono) simp_all
  also have "\<dots> = exp (7 / 10 * real n)"
    using exp_of_nat_mult [of n "7 / 10 :: real"] by (simp add: mult.commute)
  finally show ?thesis .
qed


lemma exp_760_lower: "(2::real) ^ 1076 \<le> exp 760"
proof -
  have "(2::real) ^ 1076 \<le> exp (7 / 10 * real (1076::nat))"
    by (rule pow2_le_exp)
  also have "\<dots> \<le> exp 760"
    by simp
  finally show ?thesis .
qed

lemma exp_40_lower54: "(2::real) ^ 54 \<le> exp 40"
proof -
  have "(2::real) ^ 54 \<le> exp (7 / 10 * real (54::nat))"
    by (rule pow2_le_exp)
  also have "\<dots> \<le> exp 40"
    by simp
  finally show ?thesis .
qed

lemma exp_underflow:
  assumes "x \<le> - 760"
  shows "exp x < pow2 (- 1075)"
proof -
  have "pow2 (- 1075) = 1 / 2 ^ 1075"
    using pow2_nat [of 1075] pow2_diff [of 0 1075] by simp
  moreover have "exp x \<le> exp (- 760)"
    using assms by simp
  moreover have "exp (- 760 :: real) = 1 / exp 760"
    by (simp add: exp_minus inverse_eq_divide)
  moreover have "1 / exp (760::real) \<le> 1 / 2 ^ 1076"
    using exp_760_lower by (intro divide_left_mono) simp_all
  moreover have "(1::real) / 2 ^ 1076 < 1 / 2 ^ 1075"
    by (intro divide_strict_left_mono) simp_all
  ultimately show ?thesis by linarith
qed

lemma exp_40_upper: "exp 40 \<le> (2::real) ^ 64"
proof -
  have "exp 40 = exp (1::real) ^ 40"
    using exp_of_nat_mult [of 40 "1::real"] by simp
  also have "\<dots> \<le> 3 ^ 40"
    using exp_le by (intro power_mono) simp_all
  also have "\<dots> \<le> (2::real) ^ 64"
    by simp
  finally show ?thesis .
qed

subsection \<open>The logit prediction in doubles\<close>



lemma fdiv_unit:
  assumes "0 \<le> e" and "e \<le> s" and "0 < s"
  shows "\<exists>q. fdiv (Finite e) (Finite s) = Finite q \<and> 0 \<le> q \<and> q \<le> 1"
proof -
  have "0 \<le> e / s" and "e / s \<le> 1"
    using assms by simp_all
  from round_double_unit [OF this] show ?thesis
    using assms(3) by (simp add: fdiv.simps(1))
qed







lemma np_exp_underflow: "x \<le> - 760 \<Longrightarrow> np_exp (Finite x) = Finite 0"
  unfolding np_exp.simps(1) by (rule round_double_underflow) (simp_all add: exp_underflow)

lemma pred_logit_double_minus_760: "pred_logit_double (- 760) = Finite 0"
  by (simp add: pred_logit_double_def np_exp_underflow fadd.simps(1) fdiv.simps(1))

lemma pred_logit_double_40: "pred_logit_double 40 = Finite 1"
proof -
  let ?e = "round_real (exp 40)"
  have rep: "representable ?e" by (rule round_real_representable)
  have "pow2 54 = 2 ^ 54" using pow2_nat [of 54] by simp
  then have low: "2 ^ 54 \<le> ?e"
    using round_real_lower [OF representable_pow2 [of 54], of "exp 40"] exp_40_lower54 by simp
  have "pow2 64 = 2 ^ 64" using pow2_nat [of 64] by simp
  then have up: "?e \<le> 2 ^ 64"
    using round_real_upper [OF representable_pow2 [of 64], of "exp 40"] exp_40_upper by simp
  have "(2::real) ^ 64 \<le> max_double"
    by (simp add: max_double_def)
  with up have fin: "\<not> max_double < ?e"
    by simp
  have pos: "0 \<le> ?e"
    using low by (rule order_trans [rotated]) simp
  with max_double_pos have fin': "\<not> ?e < - max_double"
    by simp
  have e: "np_exp (Finite 40) = Finite ?e"
    using fin fin' by (simp add: np_exp.simps(1) round_double_def Let_def)
  have "round_double (1 + ?e) = Finite ?e"
    using fin fin' by (simp add: round_double_def Let_def round_real_absorbs_one [OF rep low])
  moreover have "?e \<noteq> 0" using low by auto
  ultimately show ?thesis
    by (simp add: pred_logit_double_def e fadd.simps(1) fdiv.simps(1))
qed

subsection \<open>The normal density and the marginal effects in doubles\<close>

lemma round_double_cases:
  "round_double x = PInf \<or> round_double x = NInf \<or> (\<exists>q. round_double x = Finite q)"
  by (simp add: round_double_def Let_def)

lemma norm_pdf_C_cases: "\<exists>c. norm_pdf_C = Finite c \<and> 1 \<le> c \<and> c \<le> 4"
proof -
  have pos: "0 < sqrt (2 * pi)" by simp
  have one: "1 \<le> sqrt (2 * pi)"
    using pi_ge_two by (intro real_sqrt_ge_one) simp
  have "sqrt (2 * pi) \<le> sqrt 16"
    using pi_less_4 by (intro real_sqrt_le_mono) simp
  also have "sqrt 16 = (4::real)"
    using real_sqrt_abs [of "4::real"] by simp
  finally have four: "sqrt (2 * pi) \<le> real_of_int 4" by simp
  have low: "1 \<le> round_real (sqrt (2 * pi))"
    by (rule round_real_lower [OF representable_1 pos one])
  have up: "round_real (sqrt (2 * pi)) \<le> real_of_int 4"
    by (rule round_real_upper [OF representable_of_int pos four]) simp
  moreover have "real_of_int 4 \<le> max_double"
    by (simp add: max_double_def)
  ultimately have "\<not> max_double < round_real (sqrt (2 * pi))"
    by simp
  moreover have "\<not> round_real (sqrt (2 * pi)) < - max_double"
    using low max_double_pos by simp
  ultimately show ?thesis
    using low up by (simp add: norm_pdf_C_def round_double_def Let_def)
qed

lemma standardised_not_nan:
  "fdiv (fadd (Finite z) (Finite 0)) (Finite 1) = PInf \<or>
   fdiv (fadd (Finite z) (Finite 0)) (Finite 1) = NInf \<or>
   (\<exists>b. fdiv (fadd (Finite z) (Finite 0)) (Finite 1) = Finite b)"
proof -
  have a: "fadd (Finite z) (Finite 0) = round_double z"
    by (simp add: fadd.simps(1))
  from round_double_cases [of z] show ?thesis
  proof (elim disjE exE)
    assume "round_double z = PInf"
    then show ?thesis by (simp add: a)
  next
    assume "round_double z = NInf"
    then show ?thesis by (simp add: a)
  next
    fix q assume "round_double z = Finite q"
    then have "fdiv (fadd (Finite z) (Finite 0)) (Finite 1) = round_double q"
      by (simp add: a fdiv.simps(1))
    with round_double_cases [of q] show ?thesis by simp
  qed
qed

lemma fmul_self_cases:
  assumes "y = PInf \<or> y = NInf \<or> (\<exists>b. y = Finite b)"
  shows "fmul y y = PInf \<or> (\<exists>c. fmul y y = Finite c \<and> 0 \<le> c)"
proof -
  from assms show ?thesis
  proof (elim disjE exE)
    fix b assume "y = Finite b"
    moreover have "0 \<le> b * b" by simp
    from round_double_nonneg [OF this]
    have "round_double (b * b) = PInf \<or> (\<exists>c. round_double (b * b) = Finite c \<and> 0 \<le> c)"
      by blast
    ultimately show ?thesis by (simp add: fmul.simps(1))
  qed simp_all
qed

lemma neg_half_cases:
  assumes "sq = PInf \<or> (\<exists>c. sq = Finite c \<and> 0 \<le> c)"
  shows "fdiv (fneg sq) (Finite 2) = NInf \<or> (\<exists>d. fdiv (fneg sq) (Finite 2) = Finite d \<and> d \<le> 0)"
proof -
  from assms show ?thesis
  proof
    assume "sq = PInf"
    then show ?thesis by simp
  next
    assume "\<exists>c. sq = Finite c \<and> 0 \<le> c"
    then obtain c where c: "sq = Finite c" "0 \<le> c" by blast
    then have "- c / 2 \<le> 0" by simp
    from round_double_nonpos [OF this] show ?thesis
      by (simp add: c(1) fdiv.simps(1))
  qed
qed

lemma np_exp_nonpos_cases:
  assumes "h = NInf \<or> (\<exists>d. h = Finite d \<and> d \<le> 0)"
  shows "\<exists>q. np_exp h = Finite q \<and> 0 \<le> q \<and> q \<le> 1"
proof -
  from assms show ?thesis
  proof
    assume "h = NInf"
    then show ?thesis by simp
  next
    assume "\<exists>d. h = Finite d \<and> d \<le> 0"
    then obtain d where d: "h = Finite d" "d \<le> 0" by blast
    then have "0 \<le> exp d" "exp d \<le> 1" by simp_all
    from round_double_unit [OF this] show ?thesis
      by (simp add: d(1) np_exp.simps(1))
  qed
qed

lemma norm_pdf_double_unit:
  "\<exists>p. norm_pdf_double z 0 1 = Finite p \<and> 0 \<le> p \<and> p \<le> 1"
proof -
  let ?y = "fdiv (fadd (Finite z) (Finite 0)) (Finite 1)"
  from np_exp_nonpos_cases [OF neg_half_cases [OF fmul_self_cases [OF standardised_not_nan [of z]]]]
  obtain q where q: "np_exp (fdiv (fneg (fmul ?y ?y)) (Finite 2)) = Finite q" "0 \<le> q" "q \<le> 1"
    by blast
  from norm_pdf_C_cases obtain c where c: "norm_pdf_C = Finite c" "1 \<le> c"
    by blast
  from q(3) c(2) have "q \<le> c" "0 < c" by simp_all
  from fdiv_unit [OF q(2) this] obtain p1 where
    p1: "fdiv (Finite q) (Finite c) = Finite p1" "0 \<le> p1" "p1 \<le> 1"
    by blast
  from fdiv_unit [OF p1(2,3)] obtain p where
    p: "fdiv (Finite p1) (Finite 1) = Finite p" "0 \<le> p" "p \<le> 1"
    by auto
  then show ?thesis
    by (simp add: norm_pdf_double_def Let_def q(1) c(1) p1(1))
qed

lemma fmul_sign:
  assumes "0 \<le> p"
  shows "double_sign (fmul (Finite p) (Finite b)) = Finite 0 \<or>
         double_sign (fmul (Finite p) (Finite b)) = Finite (sgn b)"
proof (cases "0 \<le> b")
  case True
  with assms have "0 \<le> p * b" by simp
  from round_double_nonneg [OF this] show ?thesis
  proof
    assume "round_double (p * b) = PInf"
    moreover have "b \<noteq> 0"
    proof
      assume "b = 0"
      with calculation show False by simp
    qed
    ultimately show ?thesis
      using True by (simp add: fmul.simps(1))
  next
    assume "\<exists>q. round_double (p * b) = Finite q \<and> 0 \<le> q \<and> q = round_real (p * b)"
    then obtain q where q: "round_double (p * b) = Finite q" "0 \<le> q" "q = round_real (p * b)"
      by blast
    show ?thesis
    proof (cases "b = 0")
      case True
      then show ?thesis by (simp add: fmul.simps(1))
    next
      case False
      with True have "sgn b = 1" by simp
      moreover have "sgn q = 0 \<or> sgn q = 1"
        using q(2) by (cases "q = 0") simp_all
      ultimately show ?thesis
        by (auto simp: fmul.simps(1) q(1))
    qed
  qed
next
  case False
  then have neg: "b < 0" by simp
  with assms have "p * b \<le> 0" by (simp add: mult_nonneg_nonpos)
  from round_double_nonpos [OF this] show ?thesis
  proof
    assume "round_double (p * b) = NInf"
    then show ?thesis using neg by (simp add: fmul.simps(1))
  next
    assume "\<exists>q. round_double (p * b) = Finite q \<and> q \<le> 0"
    then obtain q where q: "round_double (p * b) = Finite q" "q \<le> 0" by blast
    have "sgn q = 0 \<or> sgn q = - 1"
      using q(2) by (cases "q = 0") simp_all
    then show ?thesis
      using neg by (auto simp: fmul.simps(1) q(1))
  qed
qed

lemma y_margeff_at_sign:
  "double_sign (fmul (norm_pdf_double z 0 1) (Finite b)) = Finite 0 \<or>
   double_sign (fmul (norm_pdf_double z 0 1) (Finite b)) = Finite (sgn b)"
proof -
  from norm_pdf_double_unit [of z] obtain p where "norm_pdf_double z 0 1 = Finite p" "0 \<le> p"
    by blast
  with fmul_sign [of p b] show ?thesis by simp
qed

lemma round_double_39: "round_double 39 = Finite 39"
  using round_double_int [of 39] by simp

lemma round_double_1521: "round_double 1521 = Finite 1521"
  using round_double_int [of 1521] by simp

lemma round_double_neg_half_1521: "round_double (- (1521 / 2)) = Finite (- (1521 / 2))"
proof -
  have "representable (real_of_int (- 1521) / 2)"
    by (rule representable_half_int) simp
  moreover have "\<bar>real_of_int (- 1521) / 2\<bar> \<le> max_double"
    by (simp add: max_double_def)
  ultimately have "round_double (real_of_int (- 1521) / 2) = Finite (real_of_int (- 1521) / 2)"
    by (rule round_double_exact)
  then show ?thesis by simp
qed

lemma norm_pdf_double_39: "norm_pdf_double 39 0 1 = Finite 0"
proof -
  from norm_pdf_C_cases obtain c where c: "norm_pdf_C = Finite c" "1 \<le> c"
    by blast
  then have "c \<noteq> 0" by auto
  moreover have "np_exp (Finite (- (1521 / 2))) = Finite 0"
    by (rule np_exp_underflow) simp
  ultimately show ?thesis
    by (simp add: norm_pdf_double_def Let_def fadd.simps(1) fmul.simps(1) fdiv.simps(1)
        round_double_39 round_double_1521 round_double_neg_half_1521 c(1))
qed

lemma y_margeff_39:
  "y_margeff \<lparr>params = \<lparr>Intercept = 0, spread = - 2\<rparr>, fittedvalues = [39]\<rparr> = [Finite 0]"
  by (simp add: y_margeff_def norm_pdf_double_39 fmul.simps(1))

lemma representable_times_minus_two:
  assumes "representable q"
  shows "representable (q * - 2)"
proof -
  from assms obtain m j where q: "q = real_of_int m * pow2 j" and m: "\<bar>m\<bar> \<le> 2 ^ 53" and j: "- 1074 \<le> j"
    by (auto simp: representable_def)
  have "pow2 (j + 1) = pow2 j * 2"
    using pow2_add [of j 1] pow2_nat [of 1] by simp
  then have "q * - 2 = real_of_int (- m) * pow2 (j + 1)"
    by (simp add: q)
  moreover have "\<bar>- m\<bar> \<le> 2 ^ 53" using m by simp
  moreover have "- 1074 \<le> j + 1" using j by simp
  ultimately show ?thesis
    unfolding representable_def by blast
qed

lemma norm_pdf_double_0:
  "\<exists>q. norm_pdf_double 0 0 1 = Finite q \<and> 1 / 4 \<le> q \<and> q \<le> 1 \<and> representable q"
proof -
  from norm_pdf_C_cases obtain c where c: "norm_pdf_C = Finite c" "1 \<le> c" "c \<le> 4"
    by blast
  let ?q = "round_real (1 / c)"
  have pos: "0 < 1 / c" using c(2) by simp
  have "pow2 (- 2) = 1 / 4"
    using pow2_diff [of 0 2] pow2_nat [of 2] by simp
  moreover have "1 / 4 \<le> 1 / c"
    using c(2,3) by (simp add: field_simps)
  ultimately have low: "1 / 4 \<le> ?q"
    using round_real_lower [OF representable_pow2 [of "- 2"] pos] by simp
  have up: "?q \<le> 1"
    using c(2) by (intro round_real_upper [OF representable_1 pos]) simp
  have rep: "representable ?q" by (rule round_real_representable)
  have one: "(1::real) \<le> max_double" by (simp add: max_double_def)
  have fin: "\<bar>?q\<bar> \<le> max_double" using low up one by simp
  have q1: "round_double (1 / c) = Finite ?q"
    using low up one max_double_pos by (simp add: round_double_def Let_def)
  have q2: "round_double ?q = Finite ?q"
    by (rule round_double_exact [OF rep fin])
  have "c \<noteq> 0" using c(2) by auto
  then have "norm_pdf_double 0 0 1 = Finite ?q"
    by (simp add: norm_pdf_double_def Let_def fadd.simps(1) fmul.simps(1) fdiv.simps(1)
        np_exp.simps(1) c(1) q1 q2)
  with low up rep show ?thesis by blast
qed

lemma y_margeff_0_sign:
  "map double_sign (y_margeff \<lparr>params = \<lparr>Intercept = 0, spread = - 2\<rparr>, fittedvalues = [0]\<rparr>)
     = [Finite (- 1)]"
proof -
  from norm_pdf_double_0 obtain q where
    q: "norm_pdf_double 0 0 1 = Finite q" "1 / 4 \<le> q" "q \<le> 1" "representable q"
    by blast
  have rep: "representable (q * - 2)"
    by (rule representable_times_minus_two [OF q(4)])
  have "(2::real) \<le> max_double" by (simp add: max_double_def)
  then have "\<bar>q * - 2\<bar> \<le> max_double" using q(2,3) by simp
  from round_double_exact [OF rep this] have "fmul (Finite q) (Finite (- 2)) = Finite (q * - 2)"
    by (simp add: fmul.simps(1))
  moreover have "sgn (q * - 2) = - 1"
    using q(2) by (simp add: sgn_mult)
  ultimately show ?thesis
    by (simp add: y_margeff_def q(1))
qed

subsection \<open>Dot products and elimination\<close>

lemma dot_Nil [simp]: "dot [] v = 0" "dot u [] = 0"
  by (simp_all add: dot_def)

lemma dot_Cons [simp]: "dot (a # u) (x # v) = a * x + dot u v"
  by (simp add: dot_def)

lemma dot_sum_nth:
  "length u = length v \<Longrightarrow> dot u v = (\<Sum>i<length u. u ! i * v ! i)"
proof (induction u arbitrary: v)
  case Nil
  then show ?case by simp
next
  case (Cons a u)
  then obtain x w where v: "v = x # w" and len: "length u = length w"
    by (cases v) auto
  have "(\<Sum>i<Suc (length u). (a # u) ! i * (x # w) ! i) = a * x + (\<Sum>i<length u. u ! i * w ! i)"
    by (simp add: sum.lessThan_Suc_shift del: sum.lessThan_Suc)
  with Cons.IH [OF len] v show ?case by simp
qed

lemma dot_replicate_zero [simp]: "dot u (replicate n 0) = 0"
proof (induction u arbitrary: n)
  case Nil
  then show ?case by simp
next
  case (Cons a u)
  then show ?case by (cases n) simp_all
qed

lemma dot_map2_sub:
  "length a = length xs \<Longrightarrow> length b = length xs \<Longrightarrow>
     dot (map2 (\<lambda>s t. s - f * t) a b) xs = dot a xs - f * dot b xs"
proof (induction xs arbitrary: a b)
  case Nil
  then show ?case by simp
next
  case (Cons x xs)
  then obtain s a' t b' where "a = s # a'" "b = t # b'" "length a' = length xs" "length b' = length xs"
    by (cases a; cases b) auto
  with Cons.IH [of a' b'] show ?case by (simp add: algebra_simps)
qed

lemma find_pivot_Some:
  "find_pivot eqs = Some (p, rest) \<Longrightarrow>
     hd (fst p) \<noteq> 0 \<and> set eqs = insert p (set rest) \<and> length eqs = Suc (length rest)"
proof (induction eqs arbitrary: p rest)
  case Nil
  then show ?case by simp
next
  case (Cons e es)
  show ?case
  proof (cases "hd (fst e) \<noteq> 0")
    case True
    with Cons.prems show ?thesis by auto
  next
    case False
    with Cons.prems obtain rest' where fp: "find_pivot es = Some (p, rest')" and r: "rest = e # rest'"
      by (auto split: option.splits)
    from Cons.IH [OF fp] r show ?thesis by auto
  qed
qed

lemma find_pivot_None: "find_pivot eqs = None \<Longrightarrow> \<forall>e\<in>set eqs. hd (fst e) = 0"
  by (induction eqs) (auto split: if_splits option.splits)

lemma dot_row_Cons: "length r = Suc n \<Longrightarrow> dot r (x # xs) = hd r * x + dot (tl r) xs"
  by (cases r) simp_all

lemma eliminate_length:
  "length (fst e) = Suc n \<Longrightarrow> length (fst p) = Suc n \<Longrightarrow> length (fst (eliminate p e)) = n"
  by (simp add: eliminate_def Let_def)

lemma eliminate_dot:
  "length (fst e) = Suc n \<Longrightarrow> length (fst p) = Suc n \<Longrightarrow> length xs = n \<Longrightarrow>
     dot (fst (eliminate p e)) xs =
       dot (tl (fst e)) xs - hd (fst e) / hd (fst p) * dot (tl (fst p)) xs"
proof -
  assume "length (fst e) = Suc n" "length (fst p) = Suc n" "length xs = n"
  then have "length (tl (fst e)) = length xs" "length (tl (fst p)) = length xs"
    by simp_all
  then show ?thesis
    unfolding eliminate_def Let_def fst_conv by (rule dot_map2_sub)
qed

lemma eliminate_snd: "snd (eliminate p e) = snd e - hd (fst e) / hd (fst p) * snd p"
  by (simp add: eliminate_def Let_def)

lemma solve_sound:
  "solve n eqs = Some xs \<Longrightarrow> \<forall>e\<in>set eqs. length (fst e) = n \<Longrightarrow> length eqs \<le> n \<Longrightarrow>
     length xs = n \<and> (\<forall>e\<in>set eqs. dot (fst e) xs = snd e)"
proof (induction n arbitrary: eqs xs)
  case 0
  then show ?case by simp
next
  case (Suc n)
  from Suc.prems(1) obtain p rest ys where
    fp: "find_pivot eqs = Some (p, rest)" and
    rec: "solve n (map (eliminate p) rest) = Some ys" and
    xs: "xs = (snd p - dot (tl (fst p)) ys) / hd (fst p) # ys"
    by (auto split: option.splits)
  from find_pivot_Some [OF fp] have
    piv: "hd (fst p) \<noteq> 0" and eqs: "set eqs = insert p (set rest)" and len: "length eqs = Suc (length rest)"
    by simp_all
  from eqs Suc.prems(2) have lp: "length (fst p) = Suc n" and lrest: "\<forall>e\<in>set rest. length (fst e) = Suc n"
    by auto
  have "\<forall>e\<in>set (map (eliminate p) rest). length (fst e) = n"
    using lrest lp by (auto simp: eliminate_length)
  moreover have "length (map (eliminate p) rest) \<le> n"
    using len Suc.prems(3) by simp
  ultimately have ih: "length ys = n" "\<forall>e\<in>set (map (eliminate p) rest). dot (fst e) ys = snd e"
    using Suc.IH [OF rec] by simp_all
  have pivot_ok: "dot (fst p) xs = snd p"
    using piv by (simp add: xs dot_row_Cons [OF lp])
  have rest_ok: "dot (fst e) xs = snd e" if "e \<in> set rest" for e
  proof -
    from that lrest have le: "length (fst e) = Suc n" by simp
    from that ih(2) have "dot (fst (eliminate p e)) ys = snd (eliminate p e)" by simp
    then have "dot (tl (fst e)) ys - hd (fst e) / hd (fst p) * dot (tl (fst p)) ys
        = snd e - hd (fst e) / hd (fst p) * snd p"
      by (simp add: eliminate_dot [OF le lp ih(1)] eliminate_snd)
    then show ?thesis
      using piv by (simp add: xs dot_row_Cons [OF le] field_simps)
  qed
  show ?case
    using ih(1) pivot_ok rest_ok by (auto simp: xs eqs)
qed

lemma solve_complete:
  "length eqs = n \<Longrightarrow> \<forall>e\<in>set eqs. length (fst e) = n \<Longrightarrow>
     (\<And>v. length v = n \<Longrightarrow> \<forall>e\<in>set eqs. dot (fst e) v = 0 \<Longrightarrow> \<forall>x\<in>set v. x = 0) \<Longrightarrow>
     \<exists>xs. solve n eqs = Some xs"
proof (induction n arbitrary: eqs)
  case 0
  then show ?case by simp
next
  case (Suc n)
  show ?case
  proof (cases "find_pivot eqs")
    case None
    then have heads: "\<forall>e\<in>set eqs. hd (fst e) = 0"
      by (rule find_pivot_None)
    have "\<forall>e\<in>set eqs. dot (fst e) (1 # replicate n 0) = 0"
      using heads Suc.prems(2) by (auto simp: dot_row_Cons)
    with Suc.prems(3) [of "1 # replicate n 0"] have "\<forall>x\<in>set (1 # replicate n (0::real)). x = 0"
      by simp
    then show ?thesis by simp
  next
    case (Some pr)
    obtain p rest where pr: "pr = (p, rest)"
      by (cases pr)
    from find_pivot_Some [of eqs p rest] Some pr have
      piv: "hd (fst p) \<noteq> 0" and eqs: "set eqs = insert p (set rest)" and len: "length eqs = Suc (length rest)"
      by simp_all
    from eqs Suc.prems(2) have lp: "length (fst p) = Suc n" and lrest: "\<forall>e\<in>set rest. length (fst e) = Suc n"
      by auto
    have kernel: "\<forall>x\<in>set w. x = 0"
      if lw: "length w = n" and kw: "\<forall>e\<in>set (map (eliminate p) rest). dot (fst e) w = 0" for w
    proof -
      define x1 where "x1 = - dot (tl (fst p)) w / hd (fst p)"
      have "dot (fst p) (x1 # w) = 0"
        using piv by (simp add: dot_row_Cons [OF lp] x1_def)
      moreover have "dot (fst e) (x1 # w) = 0" if "e \<in> set rest" for e
      proof -
        from that lrest have le: "length (fst e) = Suc n" by simp
        from that kw have "dot (fst (eliminate p e)) w = 0" by simp
        then have "dot (tl (fst e)) w = hd (fst e) / hd (fst p) * dot (tl (fst p)) w"
          by (simp add: eliminate_dot [OF le lp lw])
        then show ?thesis
          using piv by (simp add: dot_row_Cons [OF le] x1_def field_simps)
      qed
      ultimately have "\<forall>e\<in>set eqs. dot (fst e) (x1 # w) = 0"
        by (auto simp: eqs)
      with Suc.prems(3) [of "x1 # w"] lw have "\<forall>x\<in>set (x1 # w). x = 0"
        by simp
      then show ?thesis by simp
    qed
    have "\<exists>xs. solve n (map (eliminate p) rest) = Some xs"
    proof (rule Suc.IH)
      show "length (map (eliminate p) rest) = n"
        using len Suc.prems(1) by simp
      show "\<forall>e\<in>set (map (eliminate p) rest). length (fst e) = n"
        using lrest lp by (auto simp: eliminate_length)
    qed (rule kernel)
    then show ?thesis
      using Some pr by auto
  qed
qed

lemma is_matrix_nth: "is_matrix n k A \<Longrightarrow> i < n \<Longrightarrow> length (A ! i) = k"
  by (simp add: is_matrix_def list_all_length)

lemma is_matrix_row: "is_matrix n k A \<Longrightarrow> r \<in> set A \<Longrightarrow> length r = k"
  by (simp add: is_matrix_def list_all_iff)

lemma is_matrix_length: "is_matrix n k A \<Longrightarrow> length A = n"
  by (simp add: is_matrix_def)

lemma length_mat_vec [simp]: "length (mat_vec A v) = length A"
  by (simp add: mat_vec_def)

lemma mat_vec_nth: "i < length A \<Longrightarrow> mat_vec A v ! i = dot (A ! i) v"
  by (simp add: mat_vec_def)

lemma length_column [simp]: "length (column A j) = length A"
  by (simp add: column_def)

lemma column_nth: "i < length A \<Longrightarrow> column A j ! i = A ! i ! j"
  by (simp add: column_def)

lemma length_unit_vec [simp]: "length (unit_vec k i) = k"
  by (simp add: unit_vec_def)

lemma unit_vec_nth: "j < k \<Longrightarrow> unit_vec k i ! j = (if i = j then 1 else 0)"
  by (simp add: unit_vec_def)

lemma is_matrix_ident: "is_matrix k k (ident k)"
  by (simp add: is_matrix_def ident_def list_all_iff)

lemma is_matrix_mat_mul: "is_matrix n k (mat_mul k A B) \<longleftrightarrow> length A = n"
  by (auto simp: is_matrix_def mat_mul_def list_all_iff)

lemma is_matrix_transpose_mat: "is_matrix n k A \<Longrightarrow> is_matrix k n (transpose_mat k A)"
  by (simp add: is_matrix_def transpose_mat_def list_all_iff)

lemma dot_unit_vec: "length v = k \<Longrightarrow> i < k \<Longrightarrow> dot (unit_vec k i) v = v ! i"
proof -
  assume len: "length v = k" and i: "i < k"
  have "dot (unit_vec k i) v = (\<Sum>j<k. unit_vec k i ! j * v ! j)"
    using len by (simp add: dot_sum_nth)
  also have "\<dots> = (\<Sum>j<k. if i = j then v ! j else 0)"
    by (rule sum.cong) (simp_all add: unit_vec_nth)
  also have "\<dots> = v ! i"
    using i by simp
  finally show ?thesis .
qed

lemma mat_vec_ident: "length v = k \<Longrightarrow> mat_vec (ident k) v = v"
  by (rule nth_equalityI) (simp_all add: mat_vec_nth ident_def dot_unit_vec)

lemma mat_vec_zero: "mat_vec A (replicate k 0) = replicate (length A) 0"
  by (simp add: mat_vec_def map_replicate_const)

lemma dot_mat_mul_row:
  assumes b: "length b = n" and A: "is_matrix n k A" and v: "length v = k"
  shows "dot (map (\<lambda>j. dot b (column A j)) [0..<k]) v = dot b (mat_vec A v)"
proof -
  have "dot (map (\<lambda>j. dot b (column A j)) [0..<k]) v
      = (\<Sum>j<k. map (\<lambda>j. dot b (column A j)) [0..<k] ! j * v ! j)"
    using v by (simp add: dot_sum_nth)
  also have "\<dots> = (\<Sum>j<k. (\<Sum>l<n. b ! l * A ! l ! j) * v ! j)"
  proof (rule sum.cong)
    fix j assume "j \<in> {..<k}"
    then have j: "j < k" by simp
    have "dot b (column A j) = (\<Sum>l<n. b ! l * column A j ! l)"
      using b A by (simp add: dot_sum_nth is_matrix_length)
    also have "\<dots> = (\<Sum>l<n. b ! l * A ! l ! j)"
      using A by (intro sum.cong) (simp_all add: column_nth is_matrix_length)
    finally show "map (\<lambda>j. dot b (column A j)) [0..<k] ! j * v ! j = (\<Sum>l<n. b ! l * A ! l ! j) * v ! j"
      using j by simp
  qed simp
  also have "\<dots> = (\<Sum>j<k. \<Sum>l<n. b ! l * (A ! l ! j * v ! j))"
    by (simp add: sum_distrib_right mult.assoc)
  also have "\<dots> = (\<Sum>l<n. \<Sum>j<k. b ! l * (A ! l ! j * v ! j))"
    by (rule sum.swap)
  also have "\<dots> = (\<Sum>l<n. b ! l * (\<Sum>j<k. A ! l ! j * v ! j))"
    by (simp add: sum_distrib_left)
  also have "\<dots> = (\<Sum>l<n. b ! l * mat_vec A v ! l)"
  proof (rule sum.cong)
    fix l assume "l \<in> {..<n}"
    then have l: "l < n" by simp
    then have "length (A ! l) = length v"
      using A v by (simp add: is_matrix_nth)
    then have "dot (A ! l) v = (\<Sum>j<k. A ! l ! j * v ! j)"
      using v by (simp add: dot_sum_nth)
    then show "b ! l * (\<Sum>j<k. A ! l ! j * v ! j) = b ! l * mat_vec A v ! l"
      using l A by (simp add: mat_vec_nth is_matrix_length)
  qed simp
  also have "\<dots> = dot b (mat_vec A v)"
    using b A by (simp add: dot_sum_nth is_matrix_length)
  finally show ?thesis .
qed

lemma mat_vec_mat_mul:
  assumes B: "is_matrix m n B" and A: "is_matrix n k A" and v: "length v = k"
  shows "mat_vec (mat_mul k B A) v = mat_vec B (mat_vec A v)"
proof (rule nth_equalityI)
  show "length (mat_vec (mat_mul k B A) v) = length (mat_vec B (mat_vec A v))"
    by (simp add: mat_mul_def)
next
  fix i assume "i < length (mat_vec (mat_mul k B A) v)"
  then have i: "i < length B" by (simp add: mat_mul_def)
  then have "length (B ! i) = n"
    using B by (simp add: is_matrix_nth is_matrix_length)
  then show "mat_vec (mat_mul k B A) v ! i = mat_vec B (mat_vec A v) ! i"
    using i by (simp add: mat_vec_nth mat_mul_def dot_mat_mul_row [OF _ A v])
qed

lemma solve_zip_sound:
  assumes A: "is_matrix k k A" and b: "length b = k" and s: "solve k (zip A b) = Some xs"
  shows "length xs = k \<and> mat_vec A xs = b"
proof -
  have rows: "\<forall>e\<in>set (zip A b). length (fst e) = k"
    using A by (auto dest: set_zip_leftD is_matrix_row)
  have "length (zip A b) \<le> k"
    using A b by (simp add: is_matrix_length)
  from solve_sound [OF s rows this] have len: "length xs = k"
    and sol: "\<forall>e\<in>set (zip A b). dot (fst e) xs = snd e"
    by simp_all
  have "mat_vec A xs = b"
  proof (rule nth_equalityI)
    show "length (mat_vec A xs) = length b"
      using A b by (simp add: is_matrix_length)
  next
    fix i assume "i < length (mat_vec A xs)"
    then have i: "i < length A" by simp
    then have "(A ! i, b ! i) \<in> set (zip A b)"
      using A b by (auto simp: set_zip is_matrix_length)
    with sol have "dot (A ! i) xs = b ! i" by fastforce
    then show "mat_vec A xs ! i = b ! i"
      using i by (simp add: mat_vec_nth)
  qed
  with len show ?thesis by simp
qed

lemma solve_zip_complete:
  assumes A: "is_matrix k k A" and b: "length b = k"
    and kernel: "\<And>v. length v = k \<Longrightarrow> mat_vec A v = replicate k 0 \<Longrightarrow> v = replicate k 0"
  shows "\<exists>xs. solve k (zip A b) = Some xs"
proof (rule solve_complete)
  show "length (zip A b) = k"
    using A b by (simp add: is_matrix_length)
  show "\<forall>e\<in>set (zip A b). length (fst e) = k"
    using A by (auto dest: set_zip_leftD is_matrix_row)
next
  fix v assume v: "length v = k" and z: "\<forall>e\<in>set (zip A b). dot (fst e) v = 0"
  have "mat_vec A v = replicate k 0"
  proof (rule nth_equalityI)
    show "length (mat_vec A v) = length (replicate k (0::real))"
      using A by (simp add: is_matrix_length)
  next
    fix i assume "i < length (mat_vec A v)"
    then have i: "i < length A" by simp
    then have "(A ! i, b ! i) \<in> set (zip A b)"
      using A b by (auto simp: set_zip is_matrix_length)
    with z have "dot (A ! i) v = 0" by fastforce
    then show "mat_vec A v ! i = replicate k 0 ! i"
      using i A by (simp add: mat_vec_nth is_matrix_length)
  qed
  from kernel [OF v this] show "\<forall>x\<in>set v. x = 0"
    by simp
qed

lemma left_inverse_kernel:
  assumes A: "is_matrix k k A" and B: "is_matrix k k B" and BA: "mat_mul k B A = ident k"
    and v: "length v = k" and z: "mat_vec A v = replicate k 0"
  shows "v = replicate k 0"
proof -
  have "v = mat_vec (mat_mul k B A) v"
    using v by (simp add: BA mat_vec_ident)
  also have "\<dots> = mat_vec B (mat_vec A v)"
    by (rule mat_vec_mat_mul [OF B A v])
  also have "\<dots> = replicate k 0"
    using B by (simp add: z mat_vec_zero is_matrix_length)
  finally show ?thesis .
qed

lemma those_Some:
  "those xs = Some ys \<Longrightarrow> length ys = length xs \<and> (\<forall>i<length xs. xs ! i = Some (ys ! i))"
proof (induction xs arbitrary: ys)
  case Nil
  then show ?case by simp
next
  case (Cons x xs)
  then obtain y ys' where x: "x = Some y" and t: "those xs = Some ys'" and ys: "ys = y # ys'"
    by (auto split: option.splits)
  from Cons.IH [OF t] show ?case
    by (auto simp: x ys nth_Cons split: nat.splits)
qed

lemma those_all_Some: "\<forall>x\<in>set xs. \<exists>y. x = Some y \<Longrightarrow> \<exists>ys. those xs = Some ys"
  by (induction xs) auto

lemma column_transpose_mat:
  assumes C: "is_matrix k k C" and j: "j < k"
  shows "column (transpose_mat k C) j = C ! j"
proof (rule nth_equalityI)
  show "length (column (transpose_mat k C) j) = length (C ! j)"
    using C j by (simp add: transpose_mat_def is_matrix_nth)
next
  fix i assume "i < length (column (transpose_mat k C) j)"
  then have i: "i < k" by (simp add: transpose_mat_def)
  then show "column (transpose_mat k C) j ! i = C ! j ! i"
    using C j by (simp add: column_nth transpose_mat_def is_matrix_length)
qed

lemma mat_inverse_right:
  assumes A: "is_matrix k k A" and inv: "mat_inverse k A = Some Ainv"
  shows "is_matrix k k Ainv \<and> mat_mul k A Ainv = ident k"
proof -
  from inv obtain cols where
    th: "those (map (\<lambda>j. solve k (zip A (unit_vec k j))) [0..<k]) = Some cols"
    and Ainv: "Ainv = transpose_mat k cols"
    by (auto simp: mat_inverse_def split: option.splits)
  from those_Some [OF th] have lc: "length cols = k"
    and sol: "\<forall>j<k. solve k (zip A (unit_vec k j)) = Some (cols ! j)"
    by auto
  have col: "length (cols ! j) = k \<and> mat_vec A (cols ! j) = unit_vec k j" if "j < k" for j
    using solve_zip_sound [OF A _ sol [rule_format, OF that]] by simp
  have C: "is_matrix k k cols"
    using lc col by (simp add: is_matrix_def list_all_length)
  have "mat_mul k A Ainv = ident k"
  proof (rule nth_equalityI)
    show "length (mat_mul k A Ainv) = length (ident k)"
      using A by (simp add: mat_mul_def ident_def is_matrix_length)
  next
    fix r assume "r < length (mat_mul k A Ainv)"
    then have r: "r < k"
      using A by (simp add: mat_mul_def is_matrix_length)
    have "map (\<lambda>j. dot (A ! r) (column Ainv j)) [0..<k] = unit_vec k r"
    proof (rule nth_equalityI)
      show "length (map (\<lambda>j. dot (A ! r) (column Ainv j)) [0..<k]) = length (unit_vec k r)"
        by simp
    next
      fix j assume "j < length (map (\<lambda>j. dot (A ! r) (column Ainv j)) [0..<k])"
      then have j: "j < k" by simp
      have "dot (A ! r) (column Ainv j) = mat_vec A (cols ! j) ! r"
        using r A by (simp add: Ainv column_transpose_mat [OF C j] mat_vec_nth is_matrix_length)
      also have "\<dots> = unit_vec k j ! r"
        using col [OF j] by simp
      also have "\<dots> = unit_vec k r ! j"
        using r j by (simp add: unit_vec_nth)
      finally show "map (\<lambda>j. dot (A ! r) (column Ainv j)) [0..<k] ! j = unit_vec k r ! j"
        using j by simp
    qed
    then show "mat_mul k A Ainv ! r = ident k ! r"
      using r A by (simp add: mat_mul_def ident_def is_matrix_length)
  qed
  moreover have "is_matrix k k Ainv"
    unfolding Ainv by (rule is_matrix_transpose_mat [OF C])
  ultimately show ?thesis by simp
qed

lemma mat_inverse_exists:
  assumes A: "is_matrix k k A" and B: "is_matrix k k B" and BA: "mat_mul k B A = ident k"
  shows "\<exists>Ainv. mat_inverse k A = Some Ainv"
proof -
  have "\<forall>x\<in>set (map (\<lambda>j. solve k (zip A (unit_vec k j))) [0..<k]). \<exists>y. x = Some y"
    using solve_zip_complete [OF A _ left_inverse_kernel [OF A B BA]] by auto
  from those_all_Some [OF this] show ?thesis
    by (auto simp: mat_inverse_def)
qed

lemma inverse_solves:
  assumes A: "is_matrix k k A" and inv: "mat_inverse k A = Some Ainv" and b: "length b = k"
  shows "mat_vec A (mat_vec Ainv b) = b"
proof -
  from mat_inverse_right [OF A inv] have Ai: "is_matrix k k Ainv" and I: "mat_mul k A Ainv = ident k"
    by simp_all
  have "mat_vec A (mat_vec Ainv b) = mat_vec (mat_mul k A Ainv) b"
    by (rule mat_vec_mat_mul [OF A Ai b, symmetric])
  then show ?thesis
    using b by (simp add: I mat_vec_ident)
qed

lemma left_inverse_unique_solution:
  assumes A: "is_matrix k k A" and B: "is_matrix k k B" and BA: "mat_mul k B A = ident k"
    and x: "length x = k" and eq: "mat_vec A x = b"
  shows "x = mat_vec B b"
proof -
  have "x = mat_vec (mat_mul k B A) x"
    using x by (simp add: BA mat_vec_ident)
  also have "\<dots> = mat_vec B (mat_vec A x)"
    by (rule mat_vec_mat_mul [OF B A x])
  finally show ?thesis by (simp add: eq)
qed
subsection \<open>Ordinary least squares\<close>

lemma is_matrix_XtX: "is_matrix k k (XtX k X)"
  by (simp add: XtX_def is_matrix_mat_mul transpose_mat_def)

lemma length_Xty: "length (Xty k X y) = k"
  by (simp add: Xty_def transpose_mat_def)

lemma ols_fit_solves:
  assumes B: "is_matrix k k B" and BA: "mat_mul k B (XtX k X) = ident k"
  shows "\<exists>\<beta>. ols_fit k X y = Inr \<beta> \<and> length \<beta> = k \<and> mat_vec (XtX k X) \<beta> = Xty k X y"
proof -
  from mat_inverse_exists [OF is_matrix_XtX B BA] obtain Ainv where
    inv: "mat_inverse k (XtX k X) = Some Ainv"
    by blast
  from mat_inverse_right [OF is_matrix_XtX inv] have Ai: "is_matrix k k Ainv"
    by simp
  have "ols_fit k X y = Inr (mat_vec Ainv (Xty k X y))"
    by (simp add: ols_fit_def inv)
  moreover have "length (mat_vec Ainv (Xty k X y)) = k"
    using Ai by (simp add: is_matrix_length)
  moreover have "mat_vec (XtX k X) (mat_vec Ainv (Xty k X y)) = Xty k X y"
    by (rule inverse_solves [OF is_matrix_XtX inv length_Xty])
  ultimately show ?thesis by simp
qed

lemma design_matrix_is_matrix: "is_matrix (length vegas) 2 (design_matrix vegas)"
  by (simp add: is_matrix_def design_matrix_def list_all_iff)

lemma toy_XtX: "XtX 2 (design_matrix toy_vegas) = [[5, 3], [3, 19]]"
  by (simp add: XtX_def mat_mul_def transpose_mat_def column_def design_matrix_def toy_vegas_def
      eval_nat_numeral upt_rec)

lemma toy_Xty: "Xty 2 (design_matrix toy_vegas) (map fst toy_vegas) = [3, 6]"
  by (simp add: Xty_def mat_vec_def transpose_mat_def column_def design_matrix_def toy_vegas_def
      eval_nat_numeral upt_rec)

lemma toy_invertible: "invertible 2 (XtX 2 (design_matrix toy_vegas))"
  unfolding invertible_def toy_XtX
  by (rule exI [of _ "[[19 / 86, - 3 / 86], [- 3 / 86, 5 / 86]]"])
     (simp add: is_matrix_def mat_mul_def ident_def unit_vec_def column_def
       eval_nat_numeral upt_rec)

lemma toy_ols_fit:
  "ols_fit 2 (design_matrix toy_vegas) (map fst toy_vegas) = Inr [39 / 86, 21 / 86]"
  unfolding ols_fit_def toy_XtX toy_Xty
  by (simp add: mat_inverse_def unit_vec_def eliminate_def mat_vec_def transpose_mat_def
      column_def eval_nat_numeral upt_rec)

lemma toy_smf_ols:
  "smf_ols toy_vegas =
     Inr \<lparr>params = \<lparr>Intercept = 39 / 86, spread = 21 / 86\<rparr>,
          fittedvalues = [81 / 86, 18 / 86, 102 / 86, 60 / 86, - 3 / 86]\<rparr>"
  unfolding smf_ols_def Let_def toy_ols_fit
  by (simp add: design_matrix_def toy_vegas_def mat_vec_def)

lemma smf_ols_fittedvalues:
  assumes "smf_ols vegas = Inr res_ols"
  shows "fittedvalues res_ols =
           map (\<lambda>row. Intercept (params res_ols) + spread (params res_ols) * snd row) vegas"
proof -
  from assms obtain b where
    fit: "ols_fit 2 (design_matrix vegas) (map fst vegas) = Inr b" and
    res: "res_ols = \<lparr>params = \<lparr>Intercept = b ! 0, spread = b ! 1\<rparr>,
                     fittedvalues = mat_vec (design_matrix vegas) b\<rparr>"
    by (auto simp: smf_ols_def Let_def split: sum.splits)
  from fit obtain Ainv where
    inv: "mat_inverse 2 (XtX 2 (design_matrix vegas)) = Some Ainv" and
    b: "b = mat_vec Ainv (Xty 2 (design_matrix vegas) (map fst vegas))"
    by (auto simp: ols_fit_def split: option.splits)
  from mat_inverse_right [OF is_matrix_XtX inv] have "length b = 2"
    by (simp add: b is_matrix_def)
  then obtain b0 b1 where "b = [b0, b1]"
    by (cases b; cases "tl b") auto
  then show ?thesis
    by (simp add: res design_matrix_def mat_vec_def)
qed

subsection \<open>Means and marginal effects\<close>

lemma sum_list_sum_lessThan: "sum_list xs = (\<Sum>i<length xs. xs ! i)"
  by (simp add: sum_list_sum_nth atLeast0LessThan)

lemma mean_as_dot: "length v = n \<Longrightarrow> mean v = dot (replicate n (1 / real n)) v"
  by (simp add: mean_def dot_sum_nth sum_list_sum_lessThan sum_divide_distrib)

lemma dot_mean_row:
  assumes X: "is_matrix n k X" and b: "length \<beta> = k"
  shows "dot (mean_row k X) \<beta> = mean (mat_vec X \<beta>)"
proof -
  have "mean_row k X = map (\<lambda>j. dot (replicate n (1 / real n)) (column X j)) [0..<k]"
    using X by (simp add: mean_row_def mean_as_dot is_matrix_length)
  then have "dot (mean_row k X) \<beta> = dot (replicate n (1 / real n)) (mat_vec X \<beta>)"
    by (simp add: dot_mat_mul_row [OF _ X b])
  also have "\<dots> = mean (mat_vec X \<beta>)"
    using X by (simp add: mean_as_dot is_matrix_length)
  finally show ?thesis .
qed

lemma get_margeff_length: "length (get_margeff l mode X \<beta>) = length \<beta> - 1"
  by (cases mode) simp_all

lemma get_margeff_mean_at_avg_spread:
  assumes "vegas \<noteq> []"
  shows "get_margeff Normal Mean (design_matrix vegas) [b0, b1] =
           [norm_pdf (b0 + b1 * mean (map snd vegas)) 0 1 * b1]"
proof -
  have "mean (map (\<lambda>row. 1) vegas) = 1"
    using assms by (simp add: mean_def sum_list_triv)
  then show ?thesis
    by (simp add: mean_row_def column_def design_matrix_def o_def mult.commute)
qed

lemma mean_pos:
  assumes "xs \<noteq> []" and "\<forall>x\<in>set xs. 0 < x"
  shows "0 < mean xs"
proof -
  from assms obtain a ys where xs: "xs = a # ys"
    by (cases xs) auto
  have "0 \<le> sum_list ys"
    using assms(2) by (intro sum_list_nonneg) (auto simp: xs less_imp_le)
  moreover have "0 < a"
    using assms(2) by (simp add: xs)
  ultimately have "0 < sum_list xs"
    by (simp add: xs)
  then show ?thesis
    using assms(1) by (simp add: mean_def)
qed

lemma get_margeff_sign:
  assumes "j < length \<beta> - 1" and "mode = Average \<longrightarrow> X \<noteq> []"
  shows "sgn (get_margeff l mode X \<beta> ! j) = sgn (\<beta> ! Suc j)"
proof (cases mode)
  case Mean
  with assms(1) show ?thesis
    by (simp add: nth_tl sgn_mult link_pdf_pos)
next
  case Average
  with assms(2) have X: "X \<noteq> []" by simp
  have "map (\<lambda>x. link_pdf l (dot x \<beta>) * \<beta> ! Suc j) X
      = map (\<lambda>w. w * \<beta> ! Suc j) (map (\<lambda>x. link_pdf l (dot x \<beta>)) X)"
    by (simp add: o_def)
  then have "mean (map (\<lambda>x. link_pdf l (dot x \<beta>) * \<beta> ! Suc j) X)
      = mean (map (\<lambda>x. link_pdf l (dot x \<beta>)) X) * \<beta> ! Suc j"
    by (simp add: mean_def sum_list_mult_const)
  moreover have "0 < mean (map (\<lambda>x. link_pdf l (dot x \<beta>)) X)"
    using X by (intro mean_pos) (auto simp: link_pdf_pos)
  ultimately show ?thesis
    using Average assms(1) by (simp add: nth_tl sgn_mult)
qed

subsection \<open>Claims\<close>

text \<open>
  C2. For a design matrix \<open>X\<close> whose \<open>X\<^sup>tX\<close> is invertible and any outcome vector \<open>y\<close>, the
  OLS fit returns a coefficient vector \<open>\<beta>\<close> that satisfies the normal equations
  \<open>X\<^sup>tX\<beta> = X\<^sup>ty\<close>, and \<open>\<beta>\<close> is the inverse of \<open>X\<^sup>tX\<close> applied to \<open>X\<^sup>ty\<close>.
\<close>

theorem ols_normal_equations:
  assumes X: "is_matrix n k X" and y: "length y = n" and inv: "invertible k (XtX k X)"
  shows "\<exists>\<beta>. ols_fit k X y = Inr \<beta> \<and> length \<beta> = k \<and>
           mat_vec (XtX k X) \<beta> = Xty k X y \<and>
           (\<forall>B. is_matrix k k B \<and> mat_mul k B (XtX k X) = ident k \<longrightarrow>
                  \<beta> = mat_vec B (Xty k X y))"
proof -
  from inv obtain B0 where B0: "is_matrix k k B0" "mat_mul k B0 (XtX k X) = ident k"
    by (auto simp: invertible_def)
  from ols_fit_solves [OF B0] obtain \<beta> where
    fit: "ols_fit k X y = Inr \<beta>" and len: "length \<beta> = k" and
    ne: "mat_vec (XtX k X) \<beta> = Xty k X y"
    by blast
  have "\<beta> = mat_vec B (Xty k X y)"
    if "is_matrix k k B \<and> mat_mul k B (XtX k X) = ident k" for B
    using left_inverse_unique_solution [OF is_matrix_XtX _ _ len ne] that by blast
  with fit len ne show ?thesis by blast
qed

theorem ols_normal_equations_witness:
  "is_matrix 5 2 (design_matrix toy_vegas) \<and> length (map fst toy_vegas) = 5 \<and>
   invertible 2 (XtX 2 (design_matrix toy_vegas)) \<and>
   ols_fit 2 (design_matrix toy_vegas) (map fst toy_vegas) = Inr [39 / 86, 21 / 86] \<and>
   mat_vec (XtX 2 (design_matrix toy_vegas)) [39 / 86, 21 / 86]
     = Xty 2 (design_matrix toy_vegas) (map fst toy_vegas)"
proof -
  have X: "is_matrix 5 2 (design_matrix toy_vegas)"
    by (simp add: is_matrix_def design_matrix_def toy_vegas_def)
  have y: "length (map fst toy_vegas) = 5"
    by (simp add: toy_vegas_def)
  from ols_normal_equations [OF X y toy_invertible] X y toy_invertible show ?thesis
    by (auto simp: toy_ols_fit)
qed

text \<open>
  C3. The marginal-effects vector has one entry per regressor and none for the
  intercept: entry \<open>j\<close> is the link PDF at the linear index times the coefficient of
  regressor \<open>j\<close>, the index being taken at the mean design row in \<open>mean\<close> mode, and the
  products at every observation being averaged in \<open>average\<close> mode.
\<close>

theorem get_margeff_formula:
  assumes "length \<beta> = Suc k" and "j < k"
  shows "length (get_margeff l mode X \<beta>) = k \<and>
         get_margeff l Mean X \<beta> ! j = link_pdf l (dot (mean_row (Suc k) X) \<beta>) * \<beta> ! Suc j \<and>
         get_margeff l Average X \<beta> ! j = mean (map (\<lambda>x. link_pdf l (dot x \<beta>) * \<beta> ! Suc j) X)"
  using assms by (simp add: get_margeff_length nth_tl)

theorem get_margeff_formula_witness:
  "length [1 / 2, 3 :: real] = Suc 1 \<and> (0::nat) < 1 \<and>
   length (get_margeff Logistic Mean [[1, 0], [1, 2]] [1 / 2, 3]) = 1 \<and>
   get_margeff Logistic Mean [[1, 0], [1, 2]] [1 / 2, 3] ! 0
     = logistic_cdf (7 / 2) * (1 - logistic_cdf (7 / 2)) * 3"
  using get_margeff_formula [of "[1 / 2, 3]" 1 0 Logistic Mean "[[1, 0], [1, 2]]"]
  by (simp add: mean_row_def mean_def column_def eval_nat_numeral upt_rec)

text \<open>
  C4. For every real \<open>z\<close> the logistic link CDF \<open>1/(1+exp(-z))\<close> is symmetric:
  its values at \<open>z\<close> and at \<open>-z\<close> add up to one. The same holds of the form
  \<open>exp(z)/(1+exp(z))\<close> in which the notebook computes its logit predictions.
\<close>

theorem logistic_cdf_symmetry:
  "logistic_cdf z + logistic_cdf (- z) = 1 \<and> pred_logit_at z + pred_logit_at (- z) = 1"
  using logistic_cdf_sum [of z] by (simp add: pred_logit_at_eq_logistic_cdf)

text \<open>
  C5, as the claim states it, fails on the notebook: at a fitted value of 39 the
  density underflows to 0.0, so the marginal effect is 0.0 and its sign is 0 while
  the coefficient -2 has sign -1.
\<close>

theorem y_margeff_sign_lost:
  "y_margeff \<lparr>params = \<lparr>Intercept = 0, spread = - 2\<rparr>, fittedvalues = [39]\<rparr> = [Finite 0] \<and>
   double_sign (Finite 0) \<noteq> Finite (sgn (- 2))"
  by (simp add: y_margeff_39)

text \<open>
  C5, amended. Each marginal effect the notebook computes, the normal density at a
  fitted value times the coefficient of \<open>spread\<close>, is zero or has the sign of that
  coefficient: the density factor is never negative, so the sign is never the
  opposite one, but it is lost where the density or the product underflows.
\<close>

theorem y_margeff_sign_or_zero:
  "i < length (fittedvalues res_probit) \<Longrightarrow>
     double_sign (y_margeff res_probit ! i) = Finite 0 \<or>
     double_sign (y_margeff res_probit ! i) = Finite (sgn (spread (params res_probit)))"
  by (simp add: y_margeff_def y_margeff_at_sign)

theorem y_margeff_sign_or_zero_witness:
  "(0::nat) < length (fittedvalues
       \<lparr>params = \<lparr>Intercept = 0, spread = - 2\<rparr>, fittedvalues = [0]\<rparr>) \<and>
   double_sign (y_margeff
       \<lparr>params = \<lparr>Intercept = 0, spread = - 2\<rparr>, fittedvalues = [0]\<rparr> ! 0) = Finite (- 1)"
proof -
  have "map double_sign (y_margeff \<lparr>params = \<lparr>Intercept = 0, spread = - 2\<rparr>, fittedvalues = [0]\<rparr>) ! 0
      = Finite (- 1)"
    by (simp only: y_margeff_0_sign nth_Cons_0)
  then have "double_sign
      (y_margeff \<lparr>params = \<lparr>Intercept = 0, spread = - 2\<rparr>, fittedvalues = [0]\<rparr> ! 0) = Finite (- 1)"
    by (simp add: y_margeff_def)
  with y_margeff_sign_or_zero
    [of 0 "\<lparr>params = \<lparr>Intercept = 0, spread = - 2\<rparr>, fittedvalues = [0]\<rparr>"]
  show ?thesis by simp
qed

text \<open>
  C6. The predictions of the linear probability model that the notebook computes from
  the OLS coefficients are the raw linear values \<open>Intercept + spread \<cdot> i\<close> at
  \<open>i = 0, \<dots>, 34\<close>, with no clipping to \<open>[0,1]\<close>. On the binary outcome of \<open>toy_vegas\<close>
  the coefficients \<open>39/86\<close> and \<open>21/86\<close> are the least-squares fit (their residuals sum to
  zero and are orthogonal to the regressor), and with them a point of the line lies
  above 1.
\<close>

theorem linear_prob_not_clipped:
  "length (linear_prob p) = 35 \<and>
   (\<forall>i<35. linear_prob p ! i = Intercept p + spread p * real i) \<and>
   list_all (\<lambda>row. fst row = 0 \<or> fst row = 1) toy_vegas \<and>
   (\<Sum>row\<leftarrow>toy_vegas. fst row - (39 / 86 + 21 / 86 * snd row)) = 0 \<and>
   (\<Sum>row\<leftarrow>toy_vegas. (fst row - (39 / 86 + 21 / 86 * snd row)) * snd row) = 0 \<and>
   (\<exists>i<35. 1 < linear_prob \<lparr>Intercept = 39 / 86, spread = 21 / 86\<rparr> ! i)"
proof (intro conjI allI impI)
  show "length (linear_prob p) = 35"
    by (simp add: linear_prob_def)
  show "linear_prob p ! i = Intercept p + spread p * real i" if "i < 35" for i
    using that by (simp add: linear_prob_def)
  show "list_all (\<lambda>row. fst row = 0 \<or> fst row = 1) toy_vegas"
    by (simp add: toy_vegas_def)
  show "(\<Sum>row\<leftarrow>toy_vegas. fst row - (39 / 86 + 21 / 86 * snd row)) = 0"
    by (simp add: toy_vegas_def)
  show "(\<Sum>row\<leftarrow>toy_vegas. (fst row - (39 / 86 + 21 / 86 * snd row)) * snd row) = 0"
    by (simp add: toy_vegas_def)
  have "linear_prob \<lparr>Intercept = 39 / 86, spread = 21 / 86\<rparr> ! 3 = 102 / 86"
    by (simp add: linear_prob_def)
  then show "\<exists>i<35. 1 < linear_prob \<lparr>Intercept = 39 / 86, spread = 21 / 86\<rparr> ! i"
    by (intro exI [of _ 3]) simp
qed

theorem linear_prob_not_clipped_witness:
  "(3::nat) < 35 \<and> length (linear_prob \<lparr>Intercept = 39 / 86, spread = 21 / 86\<rparr>) = 35 \<and>
   linear_prob \<lparr>Intercept = 39 / 86, spread = 21 / 86\<rparr> ! 3 = 102 / 86 \<and> (1::real) < 102 / 86"
  using linear_prob_not_clipped [of "\<lparr>Intercept = 39 / 86, spread = 21 / 86\<rparr>"]
  by simp

text \<open>
  C7, as the claim states it, fails on the notebook: its logit CDF is not clamped. At the
  linear index 40 the prediction is above \<open>1 - 10\<^sup>-\<^sup>1\<^sup>2\<close>, and no positive \<open>\<epsilon>\<close> keeps
  every prediction inside \<open>[\<epsilon>, 1 - \<epsilon>]\<close>.
\<close>

theorem pred_logit_not_clamped:
  "1 - 1 / 10 ^ 12 < pred_logit_at 40 \<and>
   \<not> (\<exists>\<epsilon>>0. \<forall>z. \<epsilon> \<le> pred_logit_at z \<and> pred_logit_at z \<le> 1 - \<epsilon>)"
proof
  show "1 - 1 / 10 ^ 12 < pred_logit_at 40"
    by (rule pred_logit_at_40)
  show "\<not> (\<exists>\<epsilon>>0. \<forall>z. \<epsilon> \<le> pred_logit_at z \<and> pred_logit_at z \<le> 1 - \<epsilon>)"
  proof
    assume "\<exists>\<epsilon>>0. \<forall>z. \<epsilon> \<le> pred_logit_at z \<and> pred_logit_at z \<le> 1 - \<epsilon>"
    then obtain \<epsilon> where pos: "0 < \<epsilon>"
      and all: "\<forall>z. \<epsilon> \<le> pred_logit_at z \<and> pred_logit_at z \<le> 1 - \<epsilon>"
      by blast
    from all have "\<epsilon> \<le> pred_logit_at (ln (\<epsilon> / 2))" by blast
    with pred_logit_at_low_tail [OF pos] show False by simp
  qed
qed

text \<open>
  C7, amended. The notebook clamps neither CDF. Its probit predictions are the values
  of \<open>norm.cdf\<close> as returned. Its logit predictions are \<open>exp(z)/(1+exp(z))\<close> as
  computed: for every \<open>\<epsilon> > 0\<close> the exact value is above \<open>1 - \<epsilon>\<close> at some linear index
  and below \<open>\<epsilon>\<close> at some, and in doubles the prediction is exactly 1.0 at \<open>z = 40\<close> and
  exactly 0.0 at \<open>z = -760\<close>, outside \<open>[\<epsilon>, 1 - \<epsilon>]\<close> whatever \<open>\<epsilon>\<close> is.
\<close>

theorem pred_logit_unclamped:
  "0 < \<epsilon> \<Longrightarrow>
     (\<exists>z. 1 - \<epsilon> < pred_logit_at z) \<and> (\<exists>z. pred_logit_at z < \<epsilon>) \<and>
     (\<exists>p. pred_logit_double 40 = Finite p \<and> 1 - \<epsilon> < p) \<and>
     (\<exists>p. pred_logit_double (- 760) = Finite p \<and> p < \<epsilon>) \<and>
     pred_probit res_probit = map (\<lambda>z. norm_cdf z 0 1) (fittedvalues res_probit)"
  using pred_logit_at_high_tail [of \<epsilon>] pred_logit_at_low_tail [of \<epsilon>]
  by (auto simp: pred_logit_double_40 pred_logit_double_minus_760 pred_probit_def)

theorem pred_logit_unclamped_witness:
  "(0::real) < 1 / 10 ^ 12 \<and>
     (\<exists>z. 1 - 1 / 10 ^ 12 < pred_logit_at z) \<and> (\<exists>z. pred_logit_at z < 1 / 10 ^ 12) \<and>
     (\<exists>p. pred_logit_double 40 = Finite p \<and> 1 - 1 / 10 ^ 12 < p) \<and>
     (\<exists>p. pred_logit_double (- 760) = Finite p \<and> p < 1 / 10 ^ 12)"
  using pred_logit_unclamped [of "1 / 10 ^ 12"] by simp

text \<open>
  C8. The normal link CDF \<open>(1/2)(1+erf(z/\<surd>2))\<close>, called as the notebook calls it with
  mean 0 and standard deviation 1, is exactly one half at \<open>z = 0\<close>; so the probit
  prediction at a fitted value of 0 is one half.
\<close>

theorem norm_cdf_zero:
  "norm_cdf 0 0 1 = 1 / 2 \<and> pred_probit (res_probit\<lparr>fittedvalues := [0]\<rparr>) = [1 / 2]"
  by (simp add: norm_cdf_def pred_probit_def erf_0)



end
